theory Spec2Isabelle
  imports
    Complex_Main
    "HOL-Library.Char_ord"
    "HOL-Library.List_Lexorder"
    "HOL-Library.Product_Lexorder"
    "HOL-Library.Sublist"
begin

section \<open>Characters\<close>

text \<open>
  The embedding follows \<^verbatim>\<open>CK2::World\<close> (the World.cpp part of the source file).
  A \<^verbatim>\<open>std::map\<close> is the list of its entries in iteration order (ascending keys). A \<^verbatim>\<open>shared_ptr\<close> to a character is the pair
  of the address of the object and the object read through it; the address is what
  \<^verbatim>\<open>operator<\<close> on two pointers compares. A \<^verbatim>\<open>std::pair<int, shared_ptr<Character>>\<close> whose
  pointer may be null (the default-constructed pair is \<open>(0, None)\<close>) is a \<open>char_pair\<close>.

  A date is (year, month, day); \<^verbatim>\<open>date("1.1.1")\<close> is the value a living character has as
  death date. Prestige is a \<^verbatim>\<open>double\<close> in the source; every finite double is a rational
  number, and \<open>lround\<close> rounds to the nearest integer, halves away from zero. Its \<^verbatim>\<open>long\<close>
  result is stored in a \<^verbatim>\<open>pair<int, ...>\<close>: \<open>toInt\<close> is that narrowing to 32 bits, which wraps
  around (a prestige beyond the range of \<^verbatim>\<open>long\<close> itself, where \<^verbatim>\<open>lround\<close> has no specified
  result, is left out).
\<close>

type_synonym date = "int \<times> int \<times> int"

definition nullDate :: date where
  "nullDate = (1, 1, 1)"

record character =
  getID :: int
  isFemale :: bool
  getDeathDate :: date
  getPrestige :: rat
  getReligion :: string
  getCulture :: string
  getGovernment :: string

type_synonym char_ptr = "nat \<times> character"
type_synonym char_pair = "int \<times> char_ptr option"

text \<open>
  Modelled from the spec: Character.h is not among the sources. The fields above are the
  attributes the spec lists for a character that World.cpp reads; the holder of a title,
  as the succession code reads and writes it, has in addition the children map and the
  ``heir designation'' that \<^verbatim>\<open>setHeir\<close> stores.
\<close>

record person = character +
  getChildren :: "(int \<times> char_ptr) list"
  getHeir :: char_pair

definition setHeir :: "char_pair \<Rightarrow> person \<Rightarrow> person" where
  "setHeir h p = p\<lparr>getHeir := h\<rparr>"

definition lround :: "rat \<Rightarrow> int" where
  "lround x = (if 0 \<le> x then \<lfloor>x + 1 / 2\<rfloor> else \<lceil>x - 1 / 2\<rceil>)"

definition toInt :: "int \<Rightarrow> int" where
  "toInt x = (x + 2147483648) mod 4294967296 - 2147483648"

definition roundedPrestige :: "char_ptr \<Rightarrow> int" where
  "roundedPrestige p = toInt (lround (getPrestige (snd p)))"

definition alive :: "char_ptr \<Rightarrow> bool" where
  "alive p = (getDeathDate (snd p) = nullDate)"

definition toPair :: "int \<times> char_ptr \<Rightarrow> char_pair" where
  "toPair child = (fst child, Some (snd child))"

text \<open>\<^verbatim>\<open>std::sort\<close> of a vector of (int, pointer) pairs: ascending in the integer, then in
  the address. \<^verbatim>\<open>std::sort(rbegin, rend)\<close> leaves the vector descending.\<close>

definition pairKey :: "int \<times> char_ptr \<Rightarrow> int \<times> nat" where
  "pairKey e = (fst e, fst (snd e))"

definition sortAscending :: "(int \<times> char_ptr) list \<Rightarrow> (int \<times> char_ptr) list" where
  "sortAscending v = sort_key pairKey v"

definition sortDescending :: "(int \<times> char_ptr) list \<Rightarrow> (int \<times> char_ptr) list" where
  "sortDescending v = rev (sort_key pairKey v)"

subsection \<open>Turkish succession\<close>

text \<open>World.cpp, \<^verbatim>\<open>resolveTurkish\<close>: the vector is keyed by rounded prestige, sorted with
  \<^verbatim>\<open>std::sort(begin, end)\<close>, and the first living entry becomes the heir.\<close>

fun firstLiving :: "(int \<times> char_ptr) list \<Rightarrow> char_ptr option" where
  "firstLiving [] = None"
| "firstLiving (c # cs) = (if \<not> alive (snd c) then firstLiving cs else Some (snd c))"

definition turkishVector :: "(int \<times> char_ptr) list \<Rightarrow> (int \<times> char_ptr) list" where
  "turkishVector children = map (\<lambda>child. (roundedPrestige (snd child), snd child)) children"

definition resolveTurkish :: "int \<times> person \<Rightarrow> person" where
  "resolveTurkish holder =
     (case firstLiving (sortAscending (turkishVector (getChildren (snd holder)))) of
        None \<Rightarrow> snd holder
      | Some child \<Rightarrow> setHeir (getID (snd child), Some child) (snd holder))"

subsection \<open>Primogeniture and ultimogeniture\<close>

text \<open>The loop body of \<^verbatim>\<open>resolvePrimogeniture\<close>: four tests in the source's order, each
  reading the candidate as the previous one left it.\<close>

definition primogenitureStep ::
  "int \<times> char_ptr \<Rightarrow> char_pair \<times> char_pair \<Rightarrow> char_pair \<times> char_pair" where
  "primogenitureStep child sd =
     (if \<not> alive (snd child) then sd
      else
        let female = isFemale (snd (snd child));
            son1 = (if fst (fst sd) = 0 \<and> \<not> female then toPair child else fst sd);
            son2 = (if fst son1 \<noteq> 0 \<and> \<not> female \<and> fst son1 = fst child - 1
                    then toPair child else son1);
            daughter1 = (if fst (snd sd) = 0 \<and> female then toPair child else snd sd);
            daughter2 = (if fst daughter1 \<noteq> 0 \<and> female \<and> fst daughter1 = fst child - 1
                    then toPair child else daughter1)
        in (son2, daughter2))"

text \<open>The loop body of \<^verbatim>\<open>resolveUltimogeniture\<close>: two tests.\<close>

definition ultimogenitureStep ::
  "int \<times> char_ptr \<Rightarrow> char_pair \<times> char_pair \<Rightarrow> char_pair \<times> char_pair" where
  "ultimogenitureStep child sd =
     (if \<not> alive (snd child) then sd
      else
        let female = isFemale (snd (snd child));
            son1 = (if fst (fst sd) = 0 \<and> \<not> female then toPair child else fst sd);
            daughter1 = (if fst (snd sd) = 0 \<and> female then toPair child else snd sd)
        in (son1, daughter1))"

definition noCandidates :: "char_pair \<times> char_pair" where
  "noCandidates = ((0, None), (0, None))"

text \<open>The part of \<^verbatim>\<open>resolvePrimogeniture\<close> after the sort: the scan of the vector and the
  choice by gender law. In the \<^verbatim>\<open>true_cognatic\<close> branch with both candidates the source
  calls \<^verbatim>\<open>setHeir\<close> up to three times; the calls are applied in its order.\<close>

definition primogenitureFrom :: "string \<Rightarrow> (int \<times> char_ptr) list \<Rightarrow> person \<Rightarrow> person" where
  "primogenitureFrom genderLaw childVector p =
     (let sd = fold primogenitureStep childVector noCandidates;
          son = fst sd; daughter = snd sd
      in if (genderLaw = ''agnatic'' \<or> genderLaw = ''cognatic'') \<and> fst son \<noteq> 0 then setHeir son p
         else if genderLaw = ''cognatic'' \<and> fst daughter \<noteq> 0 then setHeir daughter p
         else if genderLaw = ''true_cognatic'' \<and> (fst son \<noteq> 0 \<or> fst daughter \<noteq> 0) then
           (if fst son \<noteq> 0 \<and> fst daughter \<noteq> 0 then
              let p1 = (if fst son < fst daughter then setHeir son p else setHeir daughter p);
                  p2 = (if fst son = fst daughter - 1 then setHeir daughter p1 else p1);
                  p3 = (if fst daughter = fst son - 1 then setHeir son p2 else p2)
              in p3
            else if fst son \<noteq> 0 then setHeir son p
            else setHeir daughter p)
         else p)"


definition resolveUltimogeniture :: "string \<Rightarrow> int \<times> person \<Rightarrow> person" where
  "resolveUltimogeniture genderLaw holder =
     (let p = snd holder;
          sd = fold ultimogenitureStep (sortDescending (getChildren p)) noCandidates;
          son = fst sd; daughter = snd sd
      in if (genderLaw = ''agnatic'' \<or> genderLaw = ''cognatic'') \<and> fst son \<noteq> 0 then setHeir son p
         else if genderLaw = ''cognatic'' \<and> fst daughter \<noteq> 0 then setHeir daughter p
         else if genderLaw = ''true_cognatic'' \<and> (fst son \<noteq> 0 \<or> fst daughter \<noteq> 0) then
           (if fst son \<noteq> 0 \<and> fst daughter \<noteq> 0 then
              (if fst son < fst daughter then setHeir son p else setHeir daughter p)
            else if fst son \<noteq> 0 then setHeir son p
            else setHeir daughter p)
         else p)"


subsection \<open>Notions used to state the succession properties\<close>

text \<open>A vector is youngest-first when its keys strictly descend. A candidate is settled
  for a vector when it is unset (key 0) or its key is above every key of the vector. Two
  candidates are adjacent when both are set and their keys differ by one: the case in
  which primogeniture's \<^verbatim>\<open>true_cognatic\<close> override acts. The youngest living son (daughter)
  of a children map is the living child of that sex with the greatest key.\<close>

definition descendingKeys :: "(int \<times> char_ptr) list \<Rightarrow> bool" where
  "descendingKeys v = sorted_wrt (\<lambda>a b. fst b < fst a) v"

definition settled :: "char_pair \<Rightarrow> (int \<times> char_ptr) list \<Rightarrow> bool" where
  "settled cand v = (fst cand = 0 \<or> (\<forall>x\<in>set v. fst x < fst cand))"

definition adjacentCandidates :: "char_pair \<times> char_pair \<Rightarrow> bool" where
  "adjacentCandidates sd =
     (fst (fst sd) \<noteq> 0 \<and> fst (snd sd) \<noteq> 0
      \<and> (fst (fst sd) = fst (snd sd) - 1 \<or> fst (snd sd) = fst (fst sd) - 1))"

definition youngestLiving :: "bool \<Rightarrow> (int \<times> char_ptr) list \<Rightarrow> int \<times> char_ptr \<Rightarrow> bool" where
  "youngestLiving female cs c =
     (c \<in> set cs \<and> alive (snd c) \<and> isFemale (snd (snd c)) = female \<and>
      (\<forall>x\<in>set cs. alive (snd x) \<and> isFemale (snd (snd x)) = female \<longrightarrow> fst x \<le> fst c))"

subsection \<open>Sample characters\<close>

text \<open>A living character with the given ID, sex and prestige, stored at the address equal
  to its ID, and a holder (ID 1) with the given children map and no heir yet.\<close>

definition sampleChild :: "int \<Rightarrow> bool \<Rightarrow> rat \<Rightarrow> int \<times> char_ptr" where
  "sampleChild i female pr =
     (i, (nat i, \<lparr>getID = i, isFemale = female, getDeathDate = nullDate, getPrestige = pr,
                  getReligion = ''catholic'', getCulture = ''german'',
                  getGovernment = ''feudal_government''\<rparr>))"

definition sampleHolder :: "(int \<times> char_ptr) list \<Rightarrow> int \<times> person" where
  "sampleHolder cs =
     (1, \<lparr>getID = 1, isFemale = False, getDeathDate = nullDate, getPrestige = 100,
          getReligion = ''catholic'', getCulture = ''german'',
          getGovernment = ''feudal_government'', getChildren = cs, getHeir = (0, None)\<rparr>)"

section \<open>Titles\<close>

text \<open>
  World.cpp reaches every title through a \<^verbatim>\<open>shared_ptr<Title>\<close> stored under the title's
  tag, in the title table and in the vassal maps alike. The store \<open>titleAt\<close> gives the
  object behind each tag, so that a write through any of these pointers is an update of
  the store at that tag. A map keyed by tag is the list of its keys in iteration order;
  \<^verbatim>\<open>std::string\<close> compares bytewise, as the order on \<open>string\<close> here does.

  The holder of a title is a \<^verbatim>\<open>pair<int, shared_ptr<Character>>\<close>: the ID and the character,
  \<open>None\<close> for a null pointer. The liege is a \<^verbatim>\<open>pair<string, shared_ptr<Liege>>\<close>: the tag as
  a string and, behind the pointer, the tag of \<^verbatim>\<open>getTitle()\<close>; \<open>None\<close> for a null pointer.

  Modelled from the spec: Title.h is not among the sources. The fields are the
  relationships and flags the spec lists for a title (holder, liege, de-jure liege,
  vassals, owned provinces, HRE and emperor flags) and the two marks of a liberated
  vassal; the spec has relationships ``resolved through the owning table'' by tag.
\<close>

type_synonym tag = string

record title =
  getName :: string
  getHolder :: "int \<times> character option"
  getLiege :: "string \<times> tag option"
  getDeJureLiege :: "string \<times> tag option"
  getVassals :: "tag list"
  getProvinces :: "int list"
  isInHRE :: bool
  isHREEmperor :: bool
  getGeneratedLiege :: "tag option"
  getGeneratedVassals :: "tag list"

record world =
  titles :: "tag list"
  titleAt :: "tag \<Rightarrow> title"
  independentTitles :: "tag list"

datatype LogLevel = Info | Warning

type_synonym log = "(LogLevel \<times> string) list"

text \<open>\<^verbatim>\<open>std::map::insert\<close> on a map keyed by tag: a key already present is left alone.\<close>

definition mapInsert :: "tag \<Rightarrow> tag list \<Rightarrow> tag list" where
  "mapInsert k m = (if k \<in> set m then m else insort k m)"

text \<open>Decimal output of a number, as \<^verbatim>\<open>operator<<\<close> and \<^verbatim>\<open>std::to_string\<close> print it.\<close>

fun showNat :: "nat \<Rightarrow> string" where
  "showNat n = (if n < 10 then [''0123456789'' ! n]
                else showNat (n div 10) @ [''0123456789'' ! (n mod 10)])"

declare showNat.simps [simp del]

definition to_string :: "int \<Rightarrow> string" where
  "to_string i = (if i < 0 then ''-'' @ showNat (nat (- i)) else showNat (nat i))"

subsection \<open>Methods of Title\<close>

text \<open>
  Modelled from the spec: the mutators of \<^verbatim>\<open>Title\<close> that World.cpp calls are declared in
  Title.h, which is not among the sources. Bricking is ``stripping a title of all
  vassals, holder, and liege''; members are ``flagged as a historical-empire member'' and
  one as ``the designated emperor''; an independent barony ``is reattached under that
  county (override liege)'', the county being its de-jure liege; a liberated vassal is
  ``flagged as engine-generated ... with a back-reference to [its] former liege''.
\<close>

definition clearVassals :: "title \<Rightarrow> title" where
  "clearVassals t = t\<lparr>getVassals := []\<rparr>"

definition clearHolder :: "title \<Rightarrow> title" where
  "clearHolder t = t\<lparr>getHolder := (0, None)\<rparr>"

definition clearLiege :: "title \<Rightarrow> title" where
  "clearLiege t = t\<lparr>getLiege := ([], None)\<rparr>"

definition setInHRE :: "title \<Rightarrow> title" where
  "setInHRE t = t\<lparr>isInHRE := True\<rparr>"

definition setHREEmperor :: "title \<Rightarrow> title" where
  "setHREEmperor t = t\<lparr>isHREEmperor := True\<rparr>"

definition overrideLiege :: "title \<Rightarrow> title" where
  "overrideLiege t = t\<lparr>getLiege := getDeJureLiege t\<rparr>"

definition registerGeneratedVassal :: "tag \<Rightarrow> title \<Rightarrow> title" where
  "registerGeneratedVassal v t = t\<lparr>getGeneratedVassals := mapInsert v (getGeneratedVassals t)\<rparr>"

definition registerGeneratedLiege :: "tag \<Rightarrow> title \<Rightarrow> title" where
  "registerGeneratedLiege l t = t\<lparr>getGeneratedLiege := Some l\<rparr>"

subsection \<open>HRE shattering\<close>

datatype I_AM_HRE = NONE | HRE | BYZANTIUM | ROME | CUSTOM

text \<open>The \<^verbatim>\<open>switch\<close> of \<^verbatim>\<open>shatterHRE\<close>; \<open>custom\<close> is \<^verbatim>\<open>iAmHreMapper.getHRE()\<close>.\<close>

definition hreTitleOf :: "I_AM_HRE \<Rightarrow> string \<Rightarrow> string" where
  "hreTitleOf mode custom =
     (case mode of
        HRE \<Rightarrow> ''e_hre''
      | BYZANTIUM \<Rightarrow> ''e_byzantium''
      | ROME \<Rightarrow> ''e_roman_empire''
      | CUSTOM \<Rightarrow> custom
      | NONE \<Rightarrow> ''e_hre'')"

text \<open>The first loop of \<^verbatim>\<open>shatterHRE\<close>, one vassal of the empire at a time: the store, the
  member map and the log. \<^verbatim>\<open>s.find(p) == 0\<close> is \<open>prefix p s\<close>. The loop runs over the
  vassal map of the empire as it is on entry; were the empire listed among its own
  kingdom-tier vassals, the source would clear that map under the running loop, and the
  properties below leave that case out.\<close>

definition hreVassalStep ::
  "tag \<Rightarrow> (tag \<Rightarrow> title) \<times> tag list \<times> log \<Rightarrow> (tag \<Rightarrow> title) \<times> tag list \<times> log" where
  "hreVassalStep vassal st =
     (case st of (H, hreMembers, lg) \<Rightarrow>
        if prefix ''d_'' vassal \<or> prefix ''c_'' vassal then (H, mapInsert vassal hreMembers, lg)
        else if prefix ''k_'' vassal then
          (if vassal = ''k_papal_state'' \<or> vassal = ''k_orthodox''
           then (H, mapInsert vassal hreMembers, lg)
           else (H(vassal := clearLiege (clearHolder (clearVassals (H vassal)))),
                 fold mapInsert (getVassals (H vassal)) hreMembers, lg))
        else if \<not> prefix ''b_'' vassal
          then (H, hreMembers, lg @ [(Warning, ''Unrecognized HRE vassal: '' @ vassal)])
        else (H, hreMembers, lg))"

text \<open>The second loop, one member at a time: the store and \<^verbatim>\<open>emperorSet\<close>. \<^verbatim>\<open>hreHolder\<close> is a
  reference to the holder field of the empire, read at each comparison.\<close>

definition hreMemberStep ::
  "tag \<Rightarrow> tag \<Rightarrow> (tag \<Rightarrow> title) \<times> bool \<Rightarrow> (tag \<Rightarrow> title) \<times> bool" where
  "hreMemberStep theHre member st =
     (case st of (H, emperorSet) \<Rightarrow>
        let isEmperor = (\<not> emperorSet \<and> fst (getHolder (H member)) = fst (getHolder (H theHre)));
            H1 = (if isEmperor then H(member := setHREEmperor (H member)) else H);
            H2 = H1(member := setInHRE (H1 member));
            H3 = H2(member := clearLiege (H2 member))
        in (H3, emperorSet \<or> isEmperor))"

definition hreCollect :: "world \<Rightarrow> tag \<Rightarrow> (tag \<Rightarrow> title) \<times> tag list \<times> log" where
  "hreCollect w hreTitle = fold hreVassalStep (getVassals (titleAt w hreTitle)) (titleAt w, [], [])"

definition shatterHRE :: "I_AM_HRE \<Rightarrow> string \<Rightarrow> world \<Rightarrow> world \<times> log" where
  "shatterHRE mode custom w =
     (if mode = NONE
        then (w, [(Info, ''>< HRE Mechanics and shattering overridden by configuration.'')])
      else
        let hreTitle = hreTitleOf mode custom in
        if hreTitle \<notin> set (titles w)
          then (w, [(Info, ''><  HRE shattering cancelled, '' @ hreTitle @ '' not found!'')])
        else if getVassals (titleAt w hreTitle) = []
          then (w, [(Info, ''><  HRE shattering cancelled, '' @ hreTitle @ '' has no vassals!'')])
        else
          (case hreCollect w hreTitle of (H1, hreMembers, lg) \<Rightarrow>
             (case fold (hreMemberStep hreTitle) hreMembers (H1, False) of (H2, emperorSet) \<Rightarrow>
                (w\<lparr>titleAt := H2(hreTitle := clearHolder (clearVassals (H2 hreTitle)))\<rparr>,
                 lg @ [(Info, ''<> '' @ showNat (length hreMembers) @ '' HRE members released.'')]))))"

subsection \<open>Barony merge\<close>

definition baronyStep :: "tag \<Rightarrow> (tag \<Rightarrow> title) \<times> nat \<Rightarrow> (tag \<Rightarrow> title) \<times> nat" where
  "baronyStep title st =
     (case st of (H, counter) \<Rightarrow>
        if fst (getHolder (H title)) = 0 then (H, counter)
        else if fst (getLiege (H title)) = [] \<and> prefix ''b_'' title
                \<and> prefix ''c_'' (fst (getDeJureLiege (H title)))
          then (H(title := overrideLiege (H title)), counter + 1)
        else (H, counter))"

definition mergeIndependentBaronies :: "world \<Rightarrow> world \<times> log" where
  "mergeIndependentBaronies w =
     (case fold baronyStep (titles w) (titleAt w, 0) of (H, counter) \<Rightarrow>
        (w\<lparr>titleAt := H\<rparr>, [(Info, ''<> '' @ showNat counter @ '' baronies reassigned.'')]))"

subsection \<open>Sample titles\<close>

text \<open>A title with the given tag, holder ID (with a feudal character behind it unless the
  ID is 0), liege, de-jure liege, vassals and provinces; a store holding the listed
  titles (any other tag is an empty title); a world whose table lists them.\<close>

definition sampleCharacter :: "int \<Rightarrow> character" where
  "sampleCharacter i =
     \<lparr>getID = i, isFemale = False, getDeathDate = nullDate, getPrestige = 0,
      getReligion = ''catholic'', getCulture = ''german'',
      getGovernment = ''feudal_government''\<rparr>"

definition sampleLink :: "string \<Rightarrow> string \<times> tag option" where
  "sampleLink l = (if l = [] then ([], None) else (l, Some l))"

definition sampleTitle :: "tag \<Rightarrow> int \<Rightarrow> string \<Rightarrow> string \<Rightarrow> tag list \<Rightarrow> int list \<Rightarrow> title" where
  "sampleTitle t h l dj vs ps =
     \<lparr>getName = t, getHolder = (h, if h = 0 then None else Some (sampleCharacter h)),
      getLiege = sampleLink l, getDeJureLiege = sampleLink dj, getVassals = vs,
      getProvinces = ps, isInHRE = False, isHREEmperor = False,
      getGeneratedLiege = None, getGeneratedVassals = []\<rparr>"

definition sampleStore :: "title list \<Rightarrow> tag \<Rightarrow> title" where
  "sampleStore ts t =
     (case find (\<lambda>x. getName x = t) ts of
        Some x \<Rightarrow> x
      | None \<Rightarrow> sampleTitle t 0 [] [] [] [])"

definition sampleWorld :: "title list \<Rightarrow> tag list \<Rightarrow> world" where
  "sampleWorld ts indeps =
     \<lparr>titles = sort (map getName ts), titleAt = sampleStore ts, independentTitles = indeps\<rparr>"

subsection \<open>Notions used to state the restructuring properties\<close>

text \<open>A vassal of the designated empire is bricked when it is a kingdom other than the two
  protected tags; bricking applies the three clearing calls; a title is bricked when it
  has no vassals, no holder and no liege. \<open>holderMatches\<close> is the comparison of the second
  loop of \<^verbatim>\<open>shatterHRE\<close>; \<open>mergesBarony\<close> collects the tests of
  \<^verbatim>\<open>mergeIndependentBaronies\<close>.\<close>

definition bricksKingdom :: "tag \<Rightarrow> bool" where
  "bricksKingdom v = (prefix ''k_'' v \<and> v \<noteq> ''k_papal_state'' \<and> v \<noteq> ''k_orthodox'')"

definition brick :: "title \<Rightarrow> title" where
  "brick t = clearLiege (clearHolder (clearVassals t))"

definition bricked :: "title \<Rightarrow> bool" where
  "bricked t = (getVassals t = [] \<and> getHolder t = (0, None) \<and> getLiege t = ([], None))"

definition holderMatches :: "(tag \<Rightarrow> title) \<Rightarrow> tag \<Rightarrow> tag \<Rightarrow> bool" where
  "holderMatches H theHre member = (fst (getHolder (H member)) = fst (getHolder (H theHre)))"

text \<open>The vassals of the empire that the first loop inserts themselves; what the second
  loop does to a member (\<open>emperor\<close>: it is the one flagged as emperor); and the store that
  the shattering leaves, title by title: bricked if a kingdom-tier vassal of the empire
  outside the protected tags, then flagged and freed if a member, then stripped of vassals
  and holder if the empire itself.\<close>

definition hreDirectMember :: "tag \<Rightarrow> bool" where
  "hreDirectMember v =
     (prefix ''d_'' v \<or> prefix ''c_'' v \<or> v = ''k_papal_state'' \<or> v = ''k_orthodox'')"

definition flagMember :: "bool \<Rightarrow> title \<Rightarrow> title" where
  "flagMember emperor t =
     t\<lparr>getLiege := ([], None), isInHRE := True, isHREEmperor := (isHREEmperor t \<or> emperor)\<rparr>"

definition hreShattered ::
  "(tag \<Rightarrow> title) \<Rightarrow> tag \<Rightarrow> tag list \<Rightarrow> tag option \<Rightarrow> tag \<Rightarrow> title" where
  "hreShattered H theHre members emperor x =
     (let base = (if x \<in> set (getVassals (H theHre)) \<and> bricksKingdom x then brick (H x) else H x);
          member = (if x \<in> set members then flagMember (emperor = Some x) base else base)
      in if x = theHre then clearHolder (clearVassals member) else member)"

definition mergesBarony :: "(tag \<Rightarrow> title) \<Rightarrow> tag \<Rightarrow> bool" where
  "mergesBarony H x =
     (fst (getHolder (H x)) \<noteq> 0 \<and> fst (getLiege (H x)) = [] \<and> prefix ''b_'' x
      \<and> prefix ''c_'' (fst (getDeJureLiege (H x))))"

subsection \<open>Sample worlds\<close>

text \<open>An empire whose holder (ID 1) also holds the duchy \<open>d_a\<close>, with a kingdom \<open>k_b\<close> over
  the duchy \<open>d_c\<close> and the protected \<open>k_papal_state\<close> over \<open>c_roma\<close>; an empire whose only
  vassal is held by somebody else; an empire without vassals; two independent baronies
  under the de-jure county \<open>c_x\<close>, one of them without a holder.\<close>

definition sampleEmpire :: world where
  "sampleEmpire = sampleWorld
     [sampleTitle ''e_hre'' 1 [] [] [''d_a'', ''k_b'', ''k_papal_state''] [],
      sampleTitle ''d_a'' 1 ''e_hre'' [] [] [1],
      sampleTitle ''k_b'' 3 ''e_hre'' [] [''d_c''] [],
      sampleTitle ''d_c'' 4 ''k_b'' [] [] [2],
      sampleTitle ''k_papal_state'' 5 ''e_hre'' [] [''c_roma''] [],
      sampleTitle ''c_roma'' 5 ''k_papal_state'' [] [] [3]] []"

definition sampleEmpireNoMatch :: world where
  "sampleEmpireNoMatch = sampleWorld
     [sampleTitle ''e_hre'' 1 [] [] [''d_a''] [],
      sampleTitle ''d_a'' 2 ''e_hre'' [] [] [1]] []"

definition sampleEmpireEmpty :: world where
  "sampleEmpireEmpty = sampleWorld
     [sampleTitle ''e_hre'' 1 [] [] [] [],
      sampleTitle ''d_a'' 2 [] [] [] [1]] []"

definition sampleBaronies :: world where
  "sampleBaronies = sampleWorld
     [sampleTitle ''b_castle'' 7 [] ''c_x'' [] [],
      sampleTitle ''b_orphan'' 0 [] ''c_x'' [] [],
      sampleTitle ''c_x'' 8 [] ''d_y'' [] [1]] []"

section \<open>Sovereignty and vassal splitting\<close>

subsection \<open>The sovereignty classifier\<close>

text \<open>\<^verbatim>\<open>filterIndependentTitles\<close>: the potential independents (holder, no liege), the holders
  of counties (a \<^verbatim>\<open>std::set<int>\<close>, here the list of its elements), and the insertion of
  the potential independents whose holder is among them.\<close>

definition potentialIndeps :: "world \<Rightarrow> tag list" where
  "potentialIndeps w =
     fold mapInsert
       (filter (\<lambda>title. fst (getHolder (titleAt w title)) \<noteq> 0
                        \<and> fst (getLiege (titleAt w title)) = []) (titles w)) []"

definition countyHolders :: "world \<Rightarrow> int list" where
  "countyHolders w =
     map (\<lambda>title. fst (getHolder (titleAt w title)))
       (filter (\<lambda>title. fst (getHolder (titleAt w title)) \<noteq> 0
                        \<and> prefix ''c_'' (getName (titleAt w title))) (titles w))"

definition filterIndependentTitles :: "world \<Rightarrow> world \<times> log" where
  "filterIndependentTitles w =
     (let recognized = filter (\<lambda>indep. fst (getHolder (titleAt w indep)) \<in> set (countyHolders w))
                         (potentialIndeps w)
      in (w\<lparr>independentTitles := fold mapInsert recognized (independentTitles w)\<rparr>,
          [(Info, ''<> '' @ showNat (length recognized) @ '' independent titles recognized.'')]))"

subsection \<open>Vassal splitting\<close>

text \<open>
  \<^verbatim>\<open>splitVassals\<close> reads \<^verbatim>\<open>coalesceProvinces()\<close> of the liege and of each vassal. That method
  of \<^verbatim>\<open>Title\<close> is not among the sources; its result for each title is the parameter \<open>cp\<close>
  (the spec calls it the title's aggregated province count, its territorial claim).
  The first loop does not write to any title, so \<open>cp\<close> is the same throughout.

  The threshold is a \<^verbatim>\<open>double\<close> in the source; it is computed here in exact rational
  arithmetic. Dereferencing a null holder or liege pointer is the error \<open>NullPointer\<close>.
\<close>

datatype error = NullPointer

definition relevantVassalPrefix :: "tag \<Rightarrow> string option" where
  "relevantVassalPrefix title =
     (if prefix ''e_'' title then Some ''k_''
      else if prefix ''k_'' title then Some ''d_''
      else None)"

definition splitThreshold :: "nat \<Rightarrow> nat \<Rightarrow> rat" where
  "splitThreshold provincesClaimed relevantVassals =
     of_nat provincesClaimed / of_nat relevantVassals + (1 / 10) * of_nat provincesClaimed"

definition countRelevantVassals :: "(tag \<Rightarrow> int list) \<Rightarrow> (tag \<Rightarrow> title) \<Rightarrow> string \<Rightarrow> tag \<Rightarrow> nat" where
  "countRelevantVassals cp H pre title =
     length (filter (\<lambda>vassal. prefix pre vassal \<and> cp vassal \<noteq> []) (getVassals (H title)))"

text \<open>One pass of the first loop: the vassals of one independent title that enter
  \<^verbatim>\<open>newIndeps\<close>.\<close>

definition splitOff ::
  "(tag \<Rightarrow> int list) \<Rightarrow> (tag \<Rightarrow> title) \<Rightarrow> tag \<Rightarrow> tag list \<Rightarrow> error + tag list" where
  "splitOff cp H title newIndeps =
     (if title = ''k_papal_state'' \<or> title = ''e_outremer'' \<or> title = ''e_china_west_governor''
        then Inr newIndeps
      else
        (case snd (getHolder (H title)) of
           None \<Rightarrow> Inl NullPointer
         | Some holder \<Rightarrow>
             if getGovernment holder = ''tribal_government''
                \<or> getGovernment holder = ''nomadic_government'' then Inr newIndeps
             else
               (case relevantVassalPrefix title of
                  None \<Rightarrow> Inr newIndeps
                | Some pre \<Rightarrow>
                    let relevantVassals = countRelevantVassals cp H pre title in
                    if relevantVassals = 0 then Inr newIndeps
                    else Inr (fold mapInsert
                      (filter (\<lambda>vassal. prefix pre vassal
                          \<and> fst (getHolder (H vassal)) \<noteq> fst (getHolder (H title))
                          \<and> splitThreshold (length (cp title)) relevantVassals
                               < of_nat (length (cp vassal)))
                        (getVassals (H title))) newIndeps))))"

fun splitLoop ::
  "(tag \<Rightarrow> int list) \<Rightarrow> (tag \<Rightarrow> title) \<Rightarrow> tag list \<Rightarrow> tag list \<Rightarrow> error + tag list" where
  "splitLoop cp H [] newIndeps = Inr newIndeps"
| "splitLoop cp H (title # rest) newIndeps =
     (case splitOff cp H title newIndeps of
        Inl e \<Rightarrow> Inl e
      | Inr n \<Rightarrow> splitLoop cp H rest n)"

text \<open>The second loop (``Now let's free them''), one new independent at a time.\<close>

definition freeStep ::
  "tag \<Rightarrow> (tag \<Rightarrow> title) \<times> tag list \<Rightarrow> error + (tag \<Rightarrow> title) \<times> tag list" where
  "freeStep newIndep st =
     (case st of (H, indeps) \<Rightarrow>
        (case snd (getLiege (H newIndep)) of
           None \<Rightarrow> Inl NullPointer
         | Some liege \<Rightarrow>
             let H1 = H(liege := registerGeneratedVassal newIndep (H liege));
                 H2 = H1(newIndep := clearLiege (H1 newIndep));
                 H3 = H2(newIndep := registerGeneratedLiege liege (H2 newIndep))
             in Inr (H3, mapInsert newIndep indeps)))"

fun freeLoop ::
  "tag list \<Rightarrow> (tag \<Rightarrow> title) \<times> tag list \<Rightarrow> error + (tag \<Rightarrow> title) \<times> tag list" where
  "freeLoop [] st = Inr st"
| "freeLoop (newIndep # rest) st =
     (case freeStep newIndep st of
        Inl e \<Rightarrow> Inl e
      | Inr st' \<Rightarrow> freeLoop rest st')"

definition splitVassals :: "(tag \<Rightarrow> int list) \<Rightarrow> world \<Rightarrow> error + world \<times> log" where
  "splitVassals cp w =
     (case splitLoop cp (titleAt w) (independentTitles w) [] of
        Inl e \<Rightarrow> Inl e
      | Inr newIndeps \<Rightarrow>
          (case freeLoop newIndeps (titleAt w, independentTitles w) of
             Inl e \<Rightarrow> Inl e
           | Inr (H, indeps) \<Rightarrow>
               Inr (w\<lparr>titleAt := H, independentTitles := indeps\<rparr>,
                    [(Info, ''<> '' @ showNat (length newIndeps)
                              @ '' vassals liberated from immediate integration.'')])))"

text \<open>The liege is one whose vassals are inspected: not one of the three protected
  tags, a holder whose government is neither tribal nor nomadic, and either an empire
  (relevant vassals are kingdoms) or a kingdom (relevant vassals are duchies).\<close>

definition splitsVassalsOf :: "(tag \<Rightarrow> title) \<Rightarrow> tag \<Rightarrow> string \<Rightarrow> bool" where
  "splitsVassalsOf H title pre =
     (title \<noteq> ''k_papal_state'' \<and> title \<noteq> ''e_outremer'' \<and> title \<noteq> ''e_china_west_governor''
      \<and> (case snd (getHolder (H title)) of
            None \<Rightarrow> False
          | Some holder \<Rightarrow> getGovernment holder \<noteq> ''tribal_government''
                          \<and> getGovernment holder \<noteq> ''nomadic_government'')
      \<and> ((prefix ''e_'' title \<and> pre = ''k_'') \<or> (prefix ''k_'' title \<and> pre = ''d_'')))"

text \<open>The vassals that one independent title adds to \<^verbatim>\<open>newIndeps\<close>.\<close>

definition addedBy :: "(tag \<Rightarrow> int list) \<Rightarrow> (tag \<Rightarrow> title) \<Rightarrow> tag \<Rightarrow> tag set" where
  "addedBy cp H title = (case splitOff cp H title [] of Inl e \<Rightarrow> {} | Inr n \<Rightarrow> set n)"

text \<open>A kingdom (holder 1, who also holds the county \<open>c_home\<close>) over two duchies; the
  duchy \<open>d_b\<close> has no holder; and the claims of the three titles.\<close>

definition sampleKingdom :: world where
  "sampleKingdom = sampleWorld
     [sampleTitle ''k_a'' 1 [] [] [''c_home'', ''d_b'', ''d_c''] [],
      sampleTitle ''c_home'' 1 ''k_a'' [] [] [6],
      sampleTitle ''d_b'' 0 ''k_a'' [] [] [1, 2, 3, 4],
      sampleTitle ''d_c'' 2 ''k_a'' [] [] [5]] []"

definition sampleClaims :: "tag \<Rightarrow> int list" where
  "sampleClaims t =
     (if t = ''k_a'' then [1, 2, 3, 4, 5, 6]
      else if t = ''d_b'' then [1, 2, 3, 4]
      else if t = ''d_c'' then [5]
      else if t = ''c_home'' then [6]
      else [])"

text \<open>A kingdom with a county, three duchies that hold land and one that holds none, each
  held by another character, twelve provinces in all; the claim of \<open>d_b\<close> is the
  parameter.\<close>

definition sampleRealm :: world where
  "sampleRealm = sampleWorld
     [sampleTitle ''k_a'' 1 [] [] [''c_x'', ''d_b'', ''d_c'', ''d_d'', ''d_e''] [],
      sampleTitle ''c_x'' 1 ''k_a'' [] [] [],
      sampleTitle ''d_b'' 3 ''k_a'' [] [] [],
      sampleTitle ''d_c'' 2 ''k_a'' [] [] [],
      sampleTitle ''d_d'' 4 ''k_a'' [] [] [],
      sampleTitle ''d_e'' 5 ''k_a'' [] [] []] [''k_a'']"

definition sampleRealmClaims :: "int list \<Rightarrow> tag \<Rightarrow> int list" where
  "sampleRealmClaims ps t =
     (if t = ''k_a'' then [1, 2, 3, 4, 5, 6, 7, 8, 9, 10, 11, 12]
      else if t = ''d_b'' then ps
      else if t = ''d_c'' then [10]
      else if t = ''d_d'' then [11]
      else if t = ''c_x'' then [12]
      else [])"

section \<open>Province sanity check\<close>

text \<open>\<^verbatim>\<open>provinceTitlesMap[province.first].push_back(indep.first)\<close> on a
  \<^verbatim>\<open>std::map<int, std::vector<std::string>>\<close>, kept as the list of its entries in key order.\<close>

fun pushBack :: "int \<Rightarrow> string \<Rightarrow> (int \<times> string list) list \<Rightarrow> (int \<times> string list) list" where
  "pushBack k v [] = [(k, [v])]"
| "pushBack k v (e # m) =
     (if k = fst e then (fst e, snd e @ [v]) # m
      else if k < fst e then (k, [v]) # e # m
      else e # pushBack k v m)"

definition provinceTitlesMap :: "(tag \<Rightarrow> title) \<Rightarrow> tag list \<Rightarrow> (int \<times> string list) list" where
  "provinceTitlesMap H indeps =
     fold (\<lambda>indep m. fold (\<lambda>province. pushBack province indep) (getProvinces (H indep)) m)
       indeps []"

definition provinceWarning :: "int \<times> string list \<Rightarrow> string" where
  "provinceWarning entry =
     fold (\<lambda>owner warning. warning @ owner @ '','') (snd entry)
       (''Province ID: '' @ to_string (fst entry) @ '' is owned by: '')"

definition sanityCheckifyProvinces :: "world \<Rightarrow> world \<times> log" where
  "sanityCheckifyProvinces w =
     (let excess = filter (\<lambda>entry. 1 < length (snd entry))
                     (provinceTitlesMap (titleAt w) (independentTitles w));
          sanity = (excess = [])
      in (w, map (\<lambda>entry. (Warning, provinceWarning entry)) excess
             @ (if sanity
                then [(Info, ''<> Province sanity check passed, all provinces accounted for.'')]
                else [(Warning, ''!! Province sanity check failed! We have excess provinces!'')])))"

text \<open>The independent titles whose province set contains a province, in map order.\<close>

definition claimants :: "world \<Rightarrow> int \<Rightarrow> tag list" where
  "claimants w p = filter (\<lambda>t. p \<in> set (getProvinces (titleAt w t))) (independentTitles w)"

definition owners :: "(int \<times> string list) list \<Rightarrow> int \<Rightarrow> string list" where
  "owners m p = (case map_of m p of None \<Rightarrow> [] | Some vs \<Rightarrow> vs)"

definition wellKeyed :: "(int \<times> string list) list \<Rightarrow> bool" where
  "wellKeyed m = (sorted_wrt (<) (map fst m) \<and> (\<forall>e\<in>set m. snd e \<noteq> []))"

definition sampleOverlap :: world where
  "sampleOverlap = sampleWorld
     [sampleTitle ''k_a'' 1 [] [] [] [1, 2],
      sampleTitle ''k_b'' 2 [] [] [] [2, 3]] [''k_a'', ''k_b'']"

definition sampleDisjoint :: world where
  "sampleDisjoint = sampleWorld
     [sampleTitle ''k_a'' 1 [] [] [] [1, 2],
      sampleTitle ''k_b'' 2 [] [] [] [3]] [''k_a'', ''k_b'']"

section \<open>Recovery of religions and cultures\<close>

text \<open>
  \<^verbatim>\<open>verifyReligionsAndCultures\<close> and \<^verbatim>\<open>loadDynastiesFromMods\<close> work on the character table;
  what they read from disk is a parameter: the mods that \<^verbatim>\<open>mods.getMods()\<close> lists (name and
  path, in map order), whether a folder exists, the files of a folder, and what
  \<^verbatim>\<open>dynasties.underLoadDynasties\<close> of one file does to the religion and culture that the
  characters report.
\<close>

record loader =
  getMods :: "(string \<times> string) list"
  doesFolderExist :: "string \<Rightarrow> bool"
  GetAllFilesInFolder :: "string \<Rightarrow> string list"
  underLoadDynasties :: "string \<Rightarrow> character list \<Rightarrow> character list"

definition insanityCounter :: "character list \<Rightarrow> nat" where
  "insanityCounter cs = length (filter (\<lambda>c. getReligion c = [] \<or> getCulture c = []) cs)"

definition loadFolder :: "loader \<Rightarrow> string \<Rightarrow> character list \<Rightarrow> character list" where
  "loadFolder env path cs =
     fold (\<lambda>file. underLoadDynasties env (path @ ''/common/dynasties/'' @ file))
       (GetAllFilesInFolder env (path @ ''/common/dynasties/'')) cs"

text \<open>The loop of \<^verbatim>\<open>loadDynastiesFromMods\<close>: the characters, the log and \<^verbatim>\<open>weAreSane\<close>.\<close>

fun rummage ::
  "loader \<Rightarrow> (string \<times> string) list \<Rightarrow> character list \<Rightarrow> log \<Rightarrow> character list \<times> log \<times> bool" where
  "rummage env [] cs lg = (cs, lg, False)"
| "rummage env (entry # mods) cs lg =
     (if doesFolderExist env (snd entry @ ''/common/dynasties/'') then
        let lg1 = lg @ [(Info, ''Found something interesting in '' @ fst entry)];
            cs1 = loadFolder env (snd entry) cs
        in if insanityCounter cs1 = 0
           then (cs1, lg1 @ [(Info, ''<> All '' @ showNat (length cs1)
                   @ '' characters have been sanified. Cancelling rummage.'')], True)
           else rummage env mods cs1
                  (lg1 @ [(Warning, ''! '' @ showNat (insanityCounter cs1)
                     @ '' characters are still lacking definitions. Continuing with the rummage.'')])
      else rummage env mods cs lg)"

definition loadDynastiesFromMods :: "loader \<Rightarrow> character list \<Rightarrow> character list \<times> log" where
  "loadDynastiesFromMods env cs =
     (case rummage env (getMods env) cs
             [(Info, ''*** Intermezzo ***''),
              (Info, ''-> Locating mods in mod folder''),
              (Info, ''-> Rummaging through mods in search of definitions.'')] of
        (cs', lg, weAreSane) \<Rightarrow>
          (cs', lg @ (if \<not> weAreSane then [(Warning, ''... We did what we could.'')] else [])
                   @ [(Info, ''*** Intermezzo End, back to scheduled run ***'')]))"

definition verifyReligionsAndCultures :: "loader \<Rightarrow> character list \<Rightarrow> character list \<times> log" where
  "verifyReligionsAndCultures env cs =
     (if insanityCounter cs = 0
        then (cs, [(Info, ''-- Verifyling All Characters Have Religion And Culture Loaded''),
                   (Info, ''<> All '' @ showNat (length cs) @ ''characters are sane.'')])
      else
        (case loadDynastiesFromMods env cs of
           (cs', lg) \<Rightarrow>
             (cs', [(Info, ''-- Verifyling All Characters Have Religion And Culture Loaded''),
                    (Warning, ''! '' @ showNat (insanityCounter cs)
                       @ '' characters have lacking definitions! Attempting recovery.'')] @ lg)))"

text \<open>What the spec describes: the sources tried in succession. \<open>loadSource\<close> is the effect
  of one mod (nothing when it has no dynasties folder), \<open>loadSources\<close> of a list of them.\<close>

definition loadSource :: "loader \<Rightarrow> string \<times> string \<Rightarrow> character list \<Rightarrow> character list" where
  "loadSource env entry cs =
     (if doesFolderExist env (snd entry @ ''/common/dynasties/'') then loadFolder env (snd entry) cs
      else cs)"

definition loadSources :: "loader \<Rightarrow> (string \<times> string) list \<Rightarrow> character list \<Rightarrow> character list" where
  "loadSources env mods cs = fold (loadSource env) mods cs"

definition giveUpWarning :: "LogLevel \<times> string" where
  "giveUpWarning = (Warning, ''... We did what we could.'')"

definition loaderInvoked :: "log \<Rightarrow> bool" where
  "loaderInvoked lg = ((Info, ''*** Intermezzo ***'') \<in> set lg)"

text \<open>No source tried so far has brought sanity: the characters are insane after each
  of the first \<open>n\<close> prefixes of the mod list (the empty prefix included).\<close>

definition insaneUpTo :: "loader \<Rightarrow> (string \<times> string) list \<Rightarrow> character list \<Rightarrow> nat \<Rightarrow> bool" where
  "insaneUpTo env mods cs n = (\<forall>j<n. insanityCounter (loadSources env (take j mods) cs) \<noteq> 0)"

text \<open>A character without religion; three mods, the first without a dynasties folder, the
  second with a file that changes nothing, the third with a file that gives every
  character the religion \<open>norse\<close>.\<close>

definition sampleHeathen :: character where
  "sampleHeathen = (sampleCharacter 9)\<lparr>getReligion := []\<rparr>"

definition sampleLoader :: "(string \<times> string) list \<Rightarrow> loader" where
  "sampleLoader mods =
     \<lparr>getMods = mods,
      doesFolderExist = (\<lambda>path. path \<noteq> ''mod/a/common/dynasties/''),
      GetAllFilesInFolder = (\<lambda>path. [''dyn.txt'']),
      underLoadDynasties = (\<lambda>file cs.
         if file = ''mod/c/common/dynasties/dyn.txt''
         then map (\<lambda>c. c\<lparr>getReligion := ''norse''\<rparr>) cs else cs)\<rparr>"

definition sampleMods :: "(string \<times> string) list" where
  "sampleMods = [(''a'', ''mod/a''), (''b'', ''mod/b''), (''c'', ''mod/c'')]"

section \<open>Succession: proofs\<close>

lemma lround_of_int: "lround (of_int n) = n"
proof (cases "0 \<le> n")
  case True
  have "\<lfloor>rat_of_int n + 1 / 2\<rfloor> = n" by (rule floor_unique) simp_all
  with True show ?thesis by (simp add: lround_def)
next
  case False
  have "\<lceil>rat_of_int n - 1 / 2\<rceil> = n" by (rule ceiling_unique) simp_all
  with False show ?thesis by (simp add: lround_def)
qed

lemma lround_numeral: "lround (numeral n) = numeral n"
  using lround_of_int [of "numeral n"] by simp

lemma pairKey_le_fst: "pairKey a \<le> pairKey b \<Longrightarrow> fst a \<le> fst b"
  by (auto simp: pairKey_def less_eq_prod_def)

lemma sortDescending_set: "set (sortDescending cs) = set cs"
  by (simp add: sortDescending_def)

lemma sortDescending_descending:
  assumes "distinct (map fst cs)"
  shows "descendingKeys (sortDescending cs)"
proof -
  let ?L = "sort_key pairKey cs"
  have "sorted (map pairKey ?L)" by simp
  then have "sorted_wrt (\<lambda>a b. pairKey a \<le> pairKey b) ?L"
    by (simp add: sorted_wrt_map)
  then have le: "sorted_wrt (\<lambda>a b. fst a \<le> fst b) ?L"
    by (rule sorted_wrt_mono_rel [rotated]) (simp add: pairKey_le_fst)
  have "distinct (map fst ?L)" using assms by (simp add: distinct_map)
  moreover have "sorted (map fst ?L)" using le by (simp add: sorted_wrt_map)
  ultimately have "sorted_wrt (<) (map fst ?L)" by (simp add: strict_sorted_iff)
  then have "sorted_wrt (\<lambda>a b. fst a < fst b) ?L" by (simp add: sorted_wrt_map)
  then show ?thesis
    by (simp add: descendingKeys_def sortDescending_def sorted_wrt_rev)
qed

subsection \<open>On a youngest-first vector the two scans agree\<close>

lemma step_agree:
  assumes "settled (fst sd) [a]" "settled (snd sd) [a]"
  shows "primogenitureStep a sd = ultimogenitureStep a sd"
  using assms
  by (auto simp: primogenitureStep_def ultimogenitureStep_def settled_def Let_def toPair_def)

lemma step_settled:
  assumes "settled (fst sd) (a # v)" "settled (snd sd) (a # v)" "descendingKeys (a # v)"
  shows "settled (fst (ultimogenitureStep a sd)) v \<and> settled (snd (ultimogenitureStep a sd)) v"
  using assms
  by (auto simp: ultimogenitureStep_def settled_def Let_def toPair_def descendingKeys_def)

lemma scan_agree:
  "descendingKeys v \<Longrightarrow> settled (fst sd) v \<Longrightarrow> settled (snd sd) v \<Longrightarrow>
   fold primogenitureStep v sd = fold ultimogenitureStep v sd"
proof (induction v arbitrary: sd)
  case Nil
  then show ?case by simp
next
  case (Cons a v)
  have one: "settled (fst sd) [a]" "settled (snd sd) [a]"
    using Cons.prems by (auto simp: settled_def)
  have eq: "primogenitureStep a sd = ultimogenitureStep a sd"
    by (rule step_agree [OF one])
  have nxt: "settled (fst (ultimogenitureStep a sd)) v \<and> settled (snd (ultimogenitureStep a sd)) v"
    using step_settled Cons.prems by blast
  have "descendingKeys v" using Cons.prems(1) by (simp add: descendingKeys_def)
  with Cons.IH nxt eq show ?case by simp
qed

lemma scan_agree_start:
  "distinct (map fst cs) \<Longrightarrow>
   fold primogenitureStep (sortDescending cs) noCandidates
     = fold ultimogenitureStep (sortDescending cs) noCandidates"
  by (rule scan_agree) (simp_all add: sortDescending_descending settled_def noCandidates_def)

subsection \<open>The ultimogeniture scan finds the youngest living son and daughter\<close>

lemma son_kept:
  "fst (fst sd) \<noteq> 0 \<Longrightarrow> fst (fold ultimogenitureStep v sd) = fst sd"
  by (induction v arbitrary: sd) (simp_all add: ultimogenitureStep_def Let_def)

lemma daughter_kept:
  "fst (snd sd) \<noteq> 0 \<Longrightarrow> snd (fold ultimogenitureStep v sd) = snd sd"
  by (induction v arbitrary: sd) (simp_all add: ultimogenitureStep_def Let_def)

lemma son_found:
  "descendingKeys v \<Longrightarrow> youngestLiving False v s \<Longrightarrow> fst s \<noteq> 0 \<Longrightarrow> fst (fst sd) = 0 \<Longrightarrow>
   fst (fold ultimogenitureStep v sd) = toPair s"
proof (induction v arbitrary: sd)
  case Nil
  then show ?case by (simp add: youngestLiving_def)
next
  case (Cons a v)
  show ?case
  proof (cases "a = s")
    case True
    have "fst (ultimogenitureStep s sd) = toPair s"
      using Cons.prems by (simp add: ultimogenitureStep_def youngestLiving_def Let_def)
    moreover have "fst (toPair s) \<noteq> 0" using Cons.prems by (simp add: toPair_def)
    ultimately show ?thesis using True son_kept [of "ultimogenitureStep s sd" v] by simp
  next
    case False
    then have mem: "s \<in> set v" using Cons.prems(2) by (simp add: youngestLiving_def)
    then have "fst s < fst a" using Cons.prems(1) by (simp add: descendingKeys_def)
    then have skip: "\<not> (alive (snd a) \<and> \<not> isFemale (snd (snd a)))"
      using Cons.prems(2) by (auto simp: youngestLiving_def)
    then have keep: "fst (ultimogenitureStep a sd) = fst sd"
      by (auto simp: ultimogenitureStep_def Let_def)
    have "youngestLiving False v s"
      using Cons.prems(2) mem by (simp add: youngestLiving_def)
    moreover have "descendingKeys v" using Cons.prems(1) by (simp add: descendingKeys_def)
    ultimately have "fst (fold ultimogenitureStep v (ultimogenitureStep a sd)) = toPair s"
      using Cons.IH Cons.prems(3,4) keep by simp
    then show ?thesis by simp
  qed
qed

lemma daughter_found:
  "descendingKeys v \<Longrightarrow> youngestLiving True v d \<Longrightarrow> fst d \<noteq> 0 \<Longrightarrow> fst (snd sd) = 0 \<Longrightarrow>
   snd (fold ultimogenitureStep v sd) = toPair d"
proof (induction v arbitrary: sd)
  case Nil
  then show ?case by (simp add: youngestLiving_def)
next
  case (Cons a v)
  show ?case
  proof (cases "a = d")
    case True
    have "snd (ultimogenitureStep d sd) = toPair d"
      using Cons.prems by (simp add: ultimogenitureStep_def youngestLiving_def Let_def)
    moreover have "fst (toPair d) \<noteq> 0" using Cons.prems by (simp add: toPair_def)
    ultimately show ?thesis using True daughter_kept [of "ultimogenitureStep d sd" v] by simp
  next
    case False
    then have mem: "d \<in> set v" using Cons.prems(2) by (simp add: youngestLiving_def)
    then have "fst d < fst a" using Cons.prems(1) by (simp add: descendingKeys_def)
    then have skip: "\<not> (alive (snd a) \<and> isFemale (snd (snd a)))"
      using Cons.prems(2) by (auto simp: youngestLiving_def)
    then have keep: "snd (ultimogenitureStep a sd) = snd sd"
      by (auto simp: ultimogenitureStep_def Let_def)
    have "youngestLiving True v d"
      using Cons.prems(2) mem by (simp add: youngestLiving_def)
    moreover have "descendingKeys v" using Cons.prems(1) by (simp add: descendingKeys_def)
    ultimately have "snd (fold ultimogenitureStep v (ultimogenitureStep a sd)) = toPair d"
      using Cons.IH Cons.prems(3,4) keep by simp
    then show ?thesis by simp
  qed
qed

lemma youngestLiving_sorted:
  "youngestLiving f cs c \<Longrightarrow> youngestLiving f (sortDescending cs) c"
  by (simp add: youngestLiving_def sortDescending_set)

text \<open>
  Claim C7. Ultimogeniture is primogeniture run on the children ordered youngest-first,
  without the \<^verbatim>\<open>true_cognatic\<close> adjacency override: the two give the same holder for every
  gender law, except under \<^verbatim>\<open>true_cognatic\<close> when both candidates are set with adjacent
  keys; and under \<^verbatim>\<open>true_cognatic\<close> with a youngest living son and a youngest living
  daughter the heir is the one of the two with the lower key, whether or not the two keys
  are adjacent. (Keys of a \<^verbatim>\<open>std::map\<close> are distinct; a candidate counts as set when its key
  is not 0.)
\<close>

theorem resolveUltimogeniture_youngest_first:
  assumes "getChildren (snd holder) = cs" and "distinct (map fst cs)"
  shows "((genderLaw = ''true_cognatic'' \<longrightarrow>
             \<not> adjacentCandidates (fold ultimogenitureStep (sortDescending cs) noCandidates)) \<longrightarrow>
            resolveUltimogeniture genderLaw holder
              = primogenitureFrom genderLaw (sortDescending cs) (snd holder))
       \<and> (youngestLiving False cs s \<and> youngestLiving True cs d \<and> fst s \<noteq> 0 \<and> fst d \<noteq> 0 \<longrightarrow>
            resolveUltimogeniture ''true_cognatic'' holder
              = setHeir (toPair (if fst s < fst d then s else d)) (snd holder))"
proof (intro conjI impI)
  assume "genderLaw = ''true_cognatic'' \<longrightarrow>
             \<not> adjacentCandidates (fold ultimogenitureStep (sortDescending cs) noCandidates)"
  then show "resolveUltimogeniture genderLaw holder
              = primogenitureFrom genderLaw (sortDescending cs) (snd holder)"
    using assms scan_agree_start [of cs]
    by (auto simp: resolveUltimogeniture_def primogenitureFrom_def adjacentCandidates_def Let_def)
next
  assume a: "youngestLiving False cs s \<and> youngestLiving True cs d \<and> fst s \<noteq> 0 \<and> fst d \<noteq> 0"
  let ?sd = "fold ultimogenitureStep (sortDescending cs) noCandidates"
  have desc: "descendingKeys (sortDescending cs)"
    using assms(2) by (rule sortDescending_descending)
  have son: "fst ?sd = toPair s"
    using son_found [OF desc, of s noCandidates] a
    by (simp add: youngestLiving_sorted noCandidates_def)
  have daughter: "snd ?sd = toPair d"
    using daughter_found [OF desc, of d noCandidates] a
    by (simp add: youngestLiving_sorted noCandidates_def)
  show "resolveUltimogeniture ''true_cognatic'' holder
              = setHeir (toPair (if fst s < fst d then s else d)) (snd holder)"
    using a assms(1) son daughter
    by (simp add: resolveUltimogeniture_def Let_def toPair_def)
qed

text \<open>The theorem at a holder with a living daughter (ID 10) and a living son (ID 11):
  ultimogeniture under \<^verbatim>\<open>true_cognatic\<close> makes the daughter heir, where primogeniture's
  override on the same youngest-first vector would make the son heir; under \<^verbatim>\<open>cognatic\<close>,
  and under \<^verbatim>\<open>true_cognatic\<close> when the son has ID 12, the two agree.\<close>

theorem resolveUltimogeniture_youngest_first_witness:
  "getChildren (snd (sampleHolder [sampleChild 10 True 0, sampleChild 11 False 0]))
      = [sampleChild 10 True 0, sampleChild 11 False 0]
   \<and> distinct (map fst [sampleChild 10 True 0, sampleChild 11 False 0])
   \<and> youngestLiving False [sampleChild 10 True 0, sampleChild 11 False 0] (sampleChild 11 False 0)
   \<and> youngestLiving True [sampleChild 10 True 0, sampleChild 11 False 0] (sampleChild 10 True 0)
   \<and> resolveUltimogeniture ''cognatic'' (sampleHolder [sampleChild 10 True 0, sampleChild 11 False 0])
       = primogenitureFrom ''cognatic''
           (sortDescending [sampleChild 10 True 0, sampleChild 11 False 0])
           (snd (sampleHolder [sampleChild 10 True 0, sampleChild 11 False 0]))
   \<and> getHeir (resolveUltimogeniture ''true_cognatic''
         (sampleHolder [sampleChild 10 True 0, sampleChild 11 False 0]))
       = toPair (sampleChild 10 True 0)
   \<and> getHeir (primogenitureFrom ''true_cognatic''
         (sortDescending [sampleChild 10 True 0, sampleChild 11 False 0])
         (snd (sampleHolder [sampleChild 10 True 0, sampleChild 11 False 0])))
       = toPair (sampleChild 11 False 0)
   \<and> \<not> adjacentCandidates (fold ultimogenitureStep
           (sortDescending [sampleChild 10 True 0, sampleChild 12 False 0]) noCandidates)
   \<and> resolveUltimogeniture ''true_cognatic''
         (sampleHolder [sampleChild 10 True 0, sampleChild 12 False 0])
       = primogenitureFrom ''true_cognatic''
           (sortDescending [sampleChild 10 True 0, sampleChild 12 False 0])
           (snd (sampleHolder [sampleChild 10 True 0, sampleChild 12 False 0]))"
proof -
  let ?cs = "[sampleChild 10 True 0, sampleChild 11 False 0]"
  let ?ds = "[sampleChild 10 True 0, sampleChild 12 False 0]"
  have h1: "getChildren (snd (sampleHolder ?cs)) = ?cs" by (simp add: sampleHolder_def)
  have h2: "distinct (map fst ?cs)" by (simp add: sampleChild_def)
  have h3: "youngestLiving False ?cs (sampleChild 11 False 0)"
    by (simp add: youngestLiving_def sampleChild_def alive_def)
  have h4: "youngestLiving True ?cs (sampleChild 10 True 0)"
    by (simp add: youngestLiving_def sampleChild_def alive_def)
  have k: "fst (sampleChild 11 False 0) \<noteq> 0" "fst (sampleChild 10 True 0) \<noteq> 0"
    "\<not> fst (sampleChild 11 False 0) < fst (sampleChild 10 True 0)"
    by (simp_all add: sampleChild_def)
  have g1: "getChildren (snd (sampleHolder ?ds)) = ?ds" by (simp add: sampleHolder_def)
  have g2: "distinct (map fst ?ds)" by (simp add: sampleChild_def)
  have g3: "\<not> adjacentCandidates (fold ultimogenitureStep (sortDescending ?ds) noCandidates)"
    by (simp add: adjacentCandidates_def sortDescending_def pairKey_def sampleChild_def
        ultimogenitureStep_def noCandidates_def toPair_def alive_def Let_def)
  have a: "resolveUltimogeniture ''cognatic'' (sampleHolder ?cs)
       = primogenitureFrom ''cognatic'' (sortDescending ?cs) (snd (sampleHolder ?cs))"
    using resolveUltimogeniture_youngest_first [OF h1 h2, of "''cognatic''"] by simp
  have b: "resolveUltimogeniture ''true_cognatic'' (sampleHolder ?cs)
       = setHeir (toPair (sampleChild 10 True 0)) (snd (sampleHolder ?cs))"
    using resolveUltimogeniture_youngest_first
            [OF h1 h2, of _ "sampleChild 11 False 0" "sampleChild 10 True 0"] h3 h4 k
    by simp
  have c: "getHeir (primogenitureFrom ''true_cognatic'' (sortDescending ?cs) (snd (sampleHolder ?cs)))
       = toPair (sampleChild 11 False 0)"
    by (simp add: primogenitureFrom_def sortDescending_def pairKey_def sampleChild_def
        primogenitureStep_def noCandidates_def toPair_def alive_def setHeir_def Let_def)
  have d: "resolveUltimogeniture ''true_cognatic'' (sampleHolder ?ds)
       = primogenitureFrom ''true_cognatic'' (sortDescending ?ds) (snd (sampleHolder ?ds))"
    using resolveUltimogeniture_youngest_first [OF g1 g2, of "''true_cognatic''"] g3 by simp
  show ?thesis using h1 h2 h3 h4 a b c g3 d by (simp add: setHeir_def)
qed



subsection \<open>Turkish succession picks the least rounded prestige\<close>

lemma firstLiving_least:
  "sorted (map pairKey v) \<Longrightarrow> firstLiving v = Some h \<Longrightarrow>
   \<exists>e\<in>set v. snd e = h \<and> alive h \<and> (\<forall>x\<in>set v. alive (snd x) \<longrightarrow> fst e \<le> fst x)"
proof (induction v)
  case Nil
  then show ?case by simp
next
  case (Cons a v)
  show ?case
  proof (cases "alive (snd a)")
    case True
    then have "h = snd a" using Cons.prems(2) by simp
    moreover have "\<forall>x\<in>set v. fst a \<le> fst x"
      using Cons.prems(1) by (auto dest: pairKey_le_fst)
    ultimately show ?thesis using True by auto
  next
    case False
    then have "firstLiving v = Some h" using Cons.prems(2) by simp
    moreover have "sorted (map pairKey v)" using Cons.prems(1) by simp
    ultimately obtain e where "e \<in> set v" "snd e = h" "alive h"
      "\<forall>x\<in>set v. alive (snd x) \<longrightarrow> fst e \<le> fst x"
      using Cons.IH by blast
    with False show ?thesis by auto
  qed
qed

lemma firstLiving_exists:
  "x \<in> set v \<Longrightarrow> alive (snd x) \<Longrightarrow> \<exists>h. firstLiving v = Some h"
  by (induction v) auto

text \<open>What \<^verbatim>\<open>resolveTurkish\<close> computes: when some child is alive, the heir is a living child
  whose rounded prestige, as the vector stores it, is at most that of every living child.\<close>

lemma resolveTurkish_least:
  assumes "c \<in> set (getChildren (snd holder))" and "alive (snd c)"
  shows "\<exists>h. h \<in> snd ` set (getChildren (snd holder)) \<and> alive h
           \<and> getHeir (resolveTurkish holder) = (getID (snd h), Some h)
           \<and> (\<forall>x\<in>set (getChildren (snd holder)). alive (snd x) \<longrightarrow>
                 roundedPrestige h \<le> roundedPrestige (snd x))"
proof -
  let ?v = "sortAscending (turkishVector (getChildren (snd holder)))"
  have set_v: "set ?v = (\<lambda>child. (roundedPrestige (snd child), snd child))
                     ` set (getChildren (snd holder))"
    by (simp add: sortAscending_def turkishVector_def)
  have "(roundedPrestige (snd c), snd c) \<in> set ?v"
    using assms(1) set_v by blast
  then obtain h where h: "firstLiving ?v = Some h"
    using firstLiving_exists [of _ ?v] assms(2) by fastforce
  have "sorted (map pairKey ?v)" by (simp add: sortAscending_def)
  from firstLiving_least [OF this h]
  obtain e where e: "e \<in> set ?v" "snd e = h" "alive h"
    "\<forall>x\<in>set ?v. alive (snd x) \<longrightarrow> fst e \<le> fst x" by blast
  from e(1) set_v obtain child where child: "child \<in> set (getChildren (snd holder))"
    "e = (roundedPrestige (snd child), snd child)" by auto
  then have key: "fst e = roundedPrestige (snd e)" by simp
  have mem: "snd e \<in> snd ` set (getChildren (snd holder))" using child by simp
  have "\<forall>x\<in>set (getChildren (snd holder)). alive (snd x) \<longrightarrow>
          roundedPrestige h \<le> roundedPrestige (snd x)"
  proof (intro ballI impI)
    fix x assume x: "x \<in> set (getChildren (snd holder))" "alive (snd x)"
    then have "(roundedPrestige (snd x), snd x) \<in> set ?v" using set_v by blast
    with e(4) x(2) have "fst e \<le> roundedPrestige (snd x)" by fastforce
    with key e(2) show "roundedPrestige h \<le> roundedPrestige (snd x)"
      by simp
  qed
  moreover have "getHeir (resolveTurkish holder) = (getID (snd h), Some h)"
    using h by (simp add: resolveTurkish_def setHeir_def)
  ultimately show ?thesis using e(2,3) mem by blast
qed

text \<open>
  Claim C1. The claim says that the living child with the highest rounded prestige
  becomes heir, and that of three living children with prestige 5, 20 and 9 the one with
  prestige 20 is selected. The code sorts ascending and takes the first living entry: at
  that input (children with IDs 2, 3, 4 and prestige 5, 20, 9) the heir is the child with
  ID 2 and prestige 5, not the child with ID 3 and prestige 20.
\<close>

theorem resolveTurkish_selects_lowest_prestige:
  "getHeir (resolveTurkish
      (sampleHolder [sampleChild 2 False 5, sampleChild 3 False 20, sampleChild 4 False 9]))
     = toPair (sampleChild 2 False 5)
   \<and> getHeir (resolveTurkish
      (sampleHolder [sampleChild 2 False 5, sampleChild 3 False 20, sampleChild 4 False 9]))
     \<noteq> toPair (sampleChild 3 False 20)"
  by (simp add: resolveTurkish_def sampleHolder_def sampleChild_def turkishVector_def
      sortAscending_def pairKey_def roundedPrestige_def toInt_def lround_numeral alive_def
      setHeir_def toPair_def)

section \<open>Restructuring: proofs\<close>

subsection \<open>HRE shattering\<close>

lemmas title_ops = clearVassals_def clearHolder_def clearLiege_def setInHRE_def setHREEmperor_def

lemma set_mapInsert: "set (mapInsert k m) = insert k (set m)"
  by (auto simp: mapInsert_def set_insort_key)

lemma set_fold_mapInsert: "set (fold mapInsert ks m) = set ks \<union> set m"
  by (induction ks arbitrary: m) (auto simp: set_mapInsert)

lemma k_not_dc: "prefix ''k_'' v \<Longrightarrow> \<not> prefix ''d_'' v \<and> \<not> prefix ''c_'' v"
  by (cases v) auto

lemma hreVassalStep_bricks:
  "bricksKingdom v \<Longrightarrow>
   hreVassalStep v (H, M, lg) = (H(v := brick (H v)), fold mapInsert (getVassals (H v)) M, lg)"
  using k_not_dc [of v] by (simp add: hreVassalStep_def bricksKingdom_def brick_def)

lemma hreVassalStep_keeps:
  "\<not> bricksKingdom v \<Longrightarrow> fst (hreVassalStep v (H, M, lg)) = H"
  by (auto simp: hreVassalStep_def bricksKingdom_def)

lemma hreVassalStep_members_mono:
  "set M \<subseteq> set (fst (snd (hreVassalStep v (H, M, lg))))"
  by (auto simp: hreVassalStep_def set_mapInsert set_fold_mapInsert)

lemma brick_idem: "brick (brick t) = brick t"
  by (simp add: brick_def title_ops)

lemma collect_store:
  "fst (fold hreVassalStep V (H, M, lg)) x
     = (if x \<in> set V \<and> bricksKingdom x then brick (H x) else H x)"
proof (induction V arbitrary: H M lg)
  case Nil
  then show ?case by simp
next
  case (Cons v V)
  show ?case
  proof (cases "bricksKingdom v")
    case True
    then show ?thesis
      by (simp add: hreVassalStep_bricks Cons.IH brick_idem)
  next
    case False
    obtain M' lg' where "hreVassalStep v (H, M, lg) = (H, M', lg')"
      using hreVassalStep_keeps [OF False, of H M lg] by (cases "hreVassalStep v (H, M, lg)") auto
    with False show ?thesis by (auto simp: Cons.IH)
  qed
qed

lemma collect_members_mono:
  "set M \<subseteq> set (fst (snd (fold hreVassalStep V (H, M, lg))))"
proof (induction V arbitrary: H M lg)
  case Nil
  then show ?case by simp
next
  case (Cons v V)
  obtain H' M' lg' where st: "hreVassalStep v (H, M, lg) = (H', M', lg')"
    by (cases "hreVassalStep v (H, M, lg)") auto
  have "set M \<subseteq> set M'" using hreVassalStep_members_mono [of M v H lg] st by simp
  also have "set M' \<subseteq> set (fst (snd (fold hreVassalStep V (H', M', lg'))))" by (rule Cons.IH)
  finally show ?case using st by simp
qed

lemma collect_protected:
  "k \<in> set V \<Longrightarrow> k = ''k_papal_state'' \<or> k = ''k_orthodox'' \<Longrightarrow>
   k \<in> set (fst (snd (fold hreVassalStep V (H, M, lg))))"
proof (induction V arbitrary: H M lg)
  case Nil
  then show ?case by simp
next
  case (Cons v V)
  obtain H' M' lg' where st: "hreVassalStep v (H, M, lg) = (H', M', lg')"
    by (cases "hreVassalStep v (H, M, lg)") auto
  show ?case
  proof (cases "k = v")
    case True
    then have "k \<in> set M'" using st Cons.prems(2)
      by (auto simp: hreVassalStep_def set_mapInsert)
    then show ?thesis using collect_members_mono [of M' V H' lg'] st by auto
  next
    case False
    then have "k \<in> set V" using Cons.prems(1) by simp
    then show ?thesis using Cons.IH [OF _ Cons.prems(2)] st by simp
  qed
qed

lemma collect_direct:
  "k \<in> set V \<Longrightarrow> prefix ''d_'' k \<or> prefix ''c_'' k \<Longrightarrow>
   k \<in> set (fst (snd (fold hreVassalStep V (H, M, lg))))"
proof (induction V arbitrary: H M lg)
  case Nil
  then show ?case by simp
next
  case (Cons v V)
  obtain H' M' lg' where st: "hreVassalStep v (H, M, lg) = (H', M', lg')"
    by (cases "hreVassalStep v (H, M, lg)") auto
  show ?case
  proof (cases "k = v")
    case True
    then have "k \<in> set M'" using st Cons.prems(2)
      by (auto simp: hreVassalStep_def set_mapInsert)
    then show ?thesis using collect_members_mono [of M' V H' lg'] st by auto
  next
    case False
    then have "k \<in> set V" using Cons.prems(1) by simp
    then show ?thesis using Cons.IH [OF _ Cons.prems(2)] st by simp
  qed
qed

lemma collect_vassals_of_bricked:
  "k \<in> set V \<Longrightarrow> bricksKingdom k \<Longrightarrow>
   set (getVassals (H k)) \<subseteq> set (fst (snd (fold hreVassalStep V (H, M, lg))))"
proof (induction V arbitrary: H M lg)
  case Nil
  then show ?case by simp
next
  case (Cons v V)
  obtain H' M' lg' where st: "hreVassalStep v (H, M, lg) = (H', M', lg')"
    by (cases "hreVassalStep v (H, M, lg)") auto
  show ?case
  proof (cases "k = v")
    case True
    then have "set (getVassals (H k)) \<subseteq> set M'"
      using st Cons.prems(2) by (auto simp: hreVassalStep_bricks set_fold_mapInsert)
    then show ?thesis using collect_members_mono [of M' V H' lg'] st by auto
  next
    case False
    then have kV: "k \<in> set V" using Cons.prems(1) by simp
    have "H' k = H k"
    proof (cases "bricksKingdom v")
      case True
      then show ?thesis using st False by (auto simp: hreVassalStep_bricks)
    next
      case False
      then show ?thesis using st hreVassalStep_keeps [of v H M lg] by simp
    qed
    then show ?thesis using Cons.IH [OF kV Cons.prems(2), of H' M' lg'] st by simp
  qed
qed

lemma memberStep_holder:
  "getHolder (fst (hreMemberStep t m (H, es)) x) = getHolder (H x)"
  by (simp add: hreMemberStep_def Let_def title_ops)

lemma memberStep_vassals:
  "getVassals (fst (hreMemberStep t m (H, es)) x) = getVassals (H x)"
  by (simp add: hreMemberStep_def Let_def title_ops)

lemma memberStep_liege:
  "getLiege (fst (hreMemberStep t m (H, es)) x) = (if x = m then ([], None) else getLiege (H x))"
  by (simp add: hreMemberStep_def Let_def title_ops)

lemma memberStep_inHRE:
  "isInHRE (fst (hreMemberStep t m (H, es)) x) = (x = m \<or> isInHRE (H x))"
  by (simp add: hreMemberStep_def Let_def title_ops)

lemma memberStep_emperor:
  "isHREEmperor (fst (hreMemberStep t m (H, es)) x)
     = (isHREEmperor (H x) \<or> (\<not> es \<and> holderMatches H t m \<and> x = m))"
  by (auto simp: hreMemberStep_def Let_def title_ops holderMatches_def)

lemma memberStep_flag:
  "snd (hreMemberStep t m (H, es)) = (es \<or> holderMatches H t m)"
  by (auto simp: hreMemberStep_def Let_def holderMatches_def)

lemma memberStep_matches:
  "holderMatches (fst (hreMemberStep t m (H, es))) t = holderMatches H t"
  by (simp add: holderMatches_def memberStep_holder fun_eq_iff)

lemma members_holder:
  "getHolder (fst (fold (hreMemberStep t) M (H, es)) x) = getHolder (H x)"
proof (induction M arbitrary: H es)
  case Nil
  then show ?case by simp
next
  case (Cons m M)
  obtain H' es' where st: "hreMemberStep t m (H, es) = (H', es')"
    by (cases "hreMemberStep t m (H, es)") auto
  then have "getHolder (H' x) = getHolder (H x)"
    using memberStep_holder [of t m H es x] by simp
  then show ?case using Cons.IH [of H' es'] st by simp
qed

lemma members_vassals:
  "getVassals (fst (fold (hreMemberStep t) M (H, es)) x) = getVassals (H x)"
proof (induction M arbitrary: H es)
  case Nil
  then show ?case by simp
next
  case (Cons m M)
  obtain H' es' where st: "hreMemberStep t m (H, es) = (H', es')"
    by (cases "hreMemberStep t m (H, es)") auto
  then have "getVassals (H' x) = getVassals (H x)"
    using memberStep_vassals [of t m H es x] by simp
  then show ?case using Cons.IH [of H' es'] st by simp
qed

lemma members_liege:
  "getLiege (fst (fold (hreMemberStep t) M (H, es)) x)
     = (if x \<in> set M then ([], None) else getLiege (H x))"
proof (induction M arbitrary: H es)
  case Nil
  then show ?case by simp
next
  case (Cons m M)
  obtain H' es' where st: "hreMemberStep t m (H, es) = (H', es')"
    by (cases "hreMemberStep t m (H, es)") auto
  then have "getLiege (H' x) = (if x = m then ([], None) else getLiege (H x))"
    using memberStep_liege [of t m H es x] by simp
  then show ?case using Cons.IH [of H' es'] st by auto
qed

lemma members_inHRE:
  "isInHRE (fst (fold (hreMemberStep t) M (H, es)) x) = (x \<in> set M \<or> isInHRE (H x))"
proof (induction M arbitrary: H es)
  case Nil
  then show ?case by simp
next
  case (Cons m M)
  obtain H' es' where st: "hreMemberStep t m (H, es) = (H', es')"
    by (cases "hreMemberStep t m (H, es)") auto
  then have "isInHRE (H' x) = (x = m \<or> isInHRE (H x))"
    using memberStep_inHRE [of t m H es x] by simp
  then show ?case using Cons.IH [of H' es'] st by auto
qed

lemma members_emperor:
  "isHREEmperor (fst (fold (hreMemberStep t) M (H, es)) x)
     = (isHREEmperor (H x) \<or> (\<not> es \<and> find (holderMatches H t) M = Some x))"
proof (induction M arbitrary: H es)
  case Nil
  then show ?case by simp
next
  case (Cons m M)
  obtain H' es' where st: "hreMemberStep t m (H, es) = (H', es')"
    by (cases "hreMemberStep t m (H, es)") auto
  have e: "isHREEmperor (H' x) = (isHREEmperor (H x) \<or> (\<not> es \<and> holderMatches H t m \<and> x = m))"
    using memberStep_emperor [of t m H es x] st by simp
  have f: "es' = (es \<or> holderMatches H t m)"
    using memberStep_flag [of t m H es] st by simp
  have g: "holderMatches H' t = holderMatches H t"
    using memberStep_matches [of t m H es] st by simp
  have "isHREEmperor (fst (fold (hreMemberStep t) M (H', es')) x)
     = (isHREEmperor (H' x) \<or> (\<not> es' \<and> find (holderMatches H' t) M = Some x))"
    by (rule Cons.IH)
  then show ?case using st e f g by auto
qed

lemma direct_not_bricks: "hreDirectMember v \<Longrightarrow> \<not> bricksKingdom v"
  using k_not_dc [of v] by (auto simp: hreDirectMember_def bricksKingdom_def)

lemma hreVassalStep_direct:
  "hreDirectMember v \<Longrightarrow> hreVassalStep v (H, M, lg) = (H, mapInsert v M, lg)"
  by (auto simp: hreVassalStep_def hreDirectMember_def)

lemma hreVassalStep_other:
  "\<not> hreDirectMember v \<Longrightarrow> \<not> bricksKingdom v \<Longrightarrow>
   fst (hreVassalStep v (H, M, lg)) = H \<and> fst (snd (hreVassalStep v (H, M, lg))) = M"
  by (auto simp: hreVassalStep_def hreDirectMember_def bricksKingdom_def)

lemma mapInsert_sorted: "sorted m \<and> distinct m \<Longrightarrow> sorted (mapInsert k m) \<and> distinct (mapInsert k m)"
  by (auto simp: mapInsert_def sorted_insort distinct_insort)

lemma fold_mapInsert_sorted:
  "sorted m \<and> distinct m \<Longrightarrow> sorted (fold mapInsert ks m) \<and> distinct (fold mapInsert ks m)"
proof (induction ks arbitrary: m)
  case Nil
  then show ?case by simp
next
  case (Cons k ks)
  from Cons.IH [OF mapInsert_sorted [OF Cons.prems]] show ?case by simp
qed

lemma hreVassalStep_sorted:
  "sorted M \<and> distinct M \<Longrightarrow>
   sorted (fst (snd (hreVassalStep v (H, M, lg)))) \<and> distinct (fst (snd (hreVassalStep v (H, M, lg))))"
  using mapInsert_sorted [of M v] fold_mapInsert_sorted [of M "getVassals (H v)"]
  by (auto simp: hreVassalStep_def)

lemma collect_sorted:
  "sorted M \<and> distinct M \<Longrightarrow>
   sorted (fst (snd (fold hreVassalStep V (H, M, lg))))
   \<and> distinct (fst (snd (fold hreVassalStep V (H, M, lg))))"
proof (induction V arbitrary: H M lg)
  case Nil
  then show ?case by simp
next
  case (Cons v V)
  obtain H' M' lg' where st: "hreVassalStep v (H, M, lg) = (H', M', lg')"
    by (cases "hreVassalStep v (H, M, lg)") auto
  then have "sorted M' \<and> distinct M'" using hreVassalStep_sorted [OF Cons.prems, of v H lg] by simp
  from Cons.IH [OF this, of H' lg'] st show ?case by simp
qed

lemma collect_members:
  "set (fst (snd (fold hreVassalStep V (H, M, lg))))
     = set M \<union> {v \<in> set V. hreDirectMember v}
       \<union> (\<Union>k\<in>{k \<in> set V. bricksKingdom k}. set (getVassals (H k)))"
proof (induction V arbitrary: H M lg)
  case Nil
  then show ?case by simp
next
  case (Cons v V)
  consider (direct) "hreDirectMember v" | (bricks) "bricksKingdom v"
    | (other) "\<not> hreDirectMember v" "\<not> bricksKingdom v" by blast
  then show ?case
  proof cases
    case direct
    then have nb: "\<not> bricksKingdom v" by (rule direct_not_bricks)
    show ?thesis
      using direct nb Cons.IH [of H "mapInsert v M" lg]
      by (auto simp: hreVassalStep_direct set_mapInsert)
  next
    case bricks
    then have nd: "\<not> hreDirectMember v" using direct_not_bricks by blast
    define H' where "H' = H(v := brick (H v))"
    define M' where "M' = fold mapInsert (getVassals (H v)) M"
    have vassals': "\<And>k. getVassals (H' k) = (if k = v then [] else getVassals (H k))"
      by (simp add: H'_def brick_def title_ops)
    have later: "(\<Union>k\<in>{k \<in> set V. bricksKingdom k}. set (getVassals (H' k)))
                 \<union> set (getVassals (H v))
               = (\<Union>k\<in>{k \<in> set (v # V). bricksKingdom k}. set (getVassals (H k)))"
      using bricks by (auto simp: vassals' split: if_splits)
    have step: "fold hreVassalStep (v # V) (H, M, lg) = fold hreVassalStep V (H', M', lg)"
      using bricks by (simp add: hreVassalStep_bricks H'_def M'_def)
    have "set (fst (snd (fold hreVassalStep (v # V) (H, M, lg))))
        = set M' \<union> {x \<in> set V. hreDirectMember x}
          \<union> (\<Union>k\<in>{k \<in> set V. bricksKingdom k}. set (getVassals (H' k)))"
      unfolding step by (rule Cons.IH)
    also have "\<dots> = set M \<union> {x \<in> set (v # V). hreDirectMember x}
          \<union> ((\<Union>k\<in>{k \<in> set V. bricksKingdom k}. set (getVassals (H' k)))
              \<union> set (getVassals (H v)))"
      using nd by (auto simp: M'_def set_fold_mapInsert)
    also have "\<dots> = set M \<union> {x \<in> set (v # V). hreDirectMember x}
          \<union> (\<Union>k\<in>{k \<in> set (v # V). bricksKingdom k}. set (getVassals (H k)))"
      unfolding later ..
    finally show ?thesis .
  next
    case other
    obtain lg' where st: "hreVassalStep v (H, M, lg) = (H, M, lg')"
      using hreVassalStep_other [OF other, of H M lg]
      by (cases "hreVassalStep v (H, M, lg)") auto
    show ?thesis using other st Cons.IH [of H M lg'] by auto
  qed
qed

lemma memberStep_store:
  "fst (hreMemberStep t m (H, es)) = H(m := flagMember (\<not> es \<and> holderMatches H t m) (H m))"
  by (auto simp: hreMemberStep_def Let_def title_ops flagMember_def holderMatches_def fun_eq_iff)

lemma flagMember_twice: "flagMember b (flagMember a T) = flagMember (a \<or> b) T"
  by (simp add: flagMember_def)

lemma flagMember_holder: "getHolder (flagMember a T) = getHolder T"
  by (simp add: flagMember_def)

lemma members_store:
  "fst (fold (hreMemberStep t) M (H, es)) x
     = (if x \<in> set M then flagMember (\<not> es \<and> find (holderMatches H t) M = Some x) (H x) else H x)"
proof (induction M arbitrary: H es)
  case Nil
  then show ?case by simp
next
  case (Cons m M)
  define e0 where "e0 = (\<not> es \<and> holderMatches H t m)"
  define H' where "H' = H(m := flagMember e0 (H m))"
  define es' where "es' = (es \<or> holderMatches H t m)"
  have st: "hreMemberStep t m (H, es) = (H', es')"
    using memberStep_store [of t m H es] memberStep_flag [of t m H es]
    by (cases "hreMemberStep t m (H, es)") (simp add: H'_def es'_def e0_def)
  have same: "holderMatches H' t = holderMatches H t"
    by (auto simp: holderMatches_def flagMember_holder fun_eq_iff H'_def)
  have step: "fold (hreMemberStep t) (m # M) (H, es) = fold (hreMemberStep t) M (H', es')"
    using st by simp
  have IH: "fst (fold (hreMemberStep t) (m # M) (H, es)) x
     = (if x \<in> set M then flagMember (\<not> es' \<and> find (holderMatches H t) M = Some x) (H' x)
        else H' x)"
    unfolding step using Cons.IH [of H' es'] unfolding same .
  have found: "\<And>y. find (holderMatches H t) M = Some y \<Longrightarrow> holderMatches H t y \<and> y \<in> set M"
    by (auto simp: find_Some_iff)
  show ?case
  proof (cases "x = m")
    case True
    have Hm: "H' m = flagMember e0 (H m)" by (simp add: H'_def)
    show ?thesis
    proof (cases "holderMatches H t m")
      case match: True
      then show ?thesis unfolding IH using True Hm
        by (auto simp: flagMember_twice e0_def es'_def)
    next
      case False
      then have "find (holderMatches H t) M \<noteq> Some m" using found by blast
      then show ?thesis unfolding IH using True False Hm
        by (auto simp: flagMember_twice e0_def es'_def)
    qed
  next
    case False
    then have "H' x = H x" by (simp add: H'_def)
    then show ?thesis unfolding IH using False by (auto simp: es'_def)
  qed
qed

lemmas sample_defs = sampleWorld_def sampleStore_def sampleTitle_def sampleLink_def
  sampleCharacter_def

text \<open>
  Claim C2, as amended. With the mode enabled and the designated empire \<open>t\<close> in the table
  with vassals (and not among its own vassals), let \<open>M\<close> be the member map that the first
  loop composes and \<open>H1\<close> the store it leaves. Then: the vassals tagged \<^verbatim>\<open>k_papal_state\<close> or
  \<^verbatim>\<open>k_orthodox\<close> are members and keep their vassals; every other kingdom-tier vassal ends
  bricked and its direct vassals are members; every member ends without liege and flagged
  as a member; the titles newly flagged as emperor are the first member in map order whose
  holder ID equals the empire's holder ID, if there is one, and none otherwise (holders
  being read after the bricking: a bricked title has holder ID 0, every other title its
  original holder); the empire ends without vassals and holder.

  The members are exactly the duchy- and county-tier vassals of the empire, its protected
  kingdoms, and the vassals of its other kingdoms, in tag order. A vassal of a protected
  kingdom that is not the empire, not itself a vassal of the empire and not a vassal of a
  bricked kingdom is no member and is left exactly as it was. The whole store afterwards
  is \<open>hreShattered\<close>; the title table and the independent set are unchanged.
\<close>

theorem shatterHRE_members:
  assumes mode: "mode \<noteq> NONE"
    and t: "t = hreTitleOf mode custom"
    and found: "t \<in> set (titles w)"
    and vassals: "getVassals (titleAt w t) \<noteq> []"
    and self: "t \<notin> set (getVassals (titleAt w t))"
    and collect: "hreCollect w t = (H1, M, lg)"
    and w': "w' = fst (shatterHRE mode custom w)"
  shows "(\<forall>k\<in>set (getVassals (titleAt w t)). k = ''k_papal_state'' \<or> k = ''k_orthodox'' \<longrightarrow>
            k \<in> set M \<and> getVassals (titleAt w' k) = getVassals (titleAt w k))
       \<and> (\<forall>k\<in>set (getVassals (titleAt w t)). bricksKingdom k \<longrightarrow>
            bricked (titleAt w' k) \<and> set (getVassals (titleAt w k)) \<subseteq> set M)
       \<and> (\<forall>m\<in>set M. getLiege (titleAt w' m) = ([], None) \<and> isInHRE (titleAt w' m))
       \<and> (\<forall>x. isHREEmperor (titleAt w' x)
                 = (isHREEmperor (titleAt w x) \<or> find (holderMatches H1 t) M = Some x))
       \<and> (\<forall>x. getHolder (H1 x)
                 = (if x \<in> set (getVassals (titleAt w t)) \<and> bricksKingdom x then (0, None)
                    else getHolder (titleAt w x)))
       \<and> getVassals (titleAt w' t) = [] \<and> getHolder (titleAt w' t) = (0, None)
       \<and> sorted M \<and> distinct M
       \<and> set M = {v \<in> set (getVassals (titleAt w t)). hreDirectMember v}
                 \<union> (\<Union>k\<in>{k \<in> set (getVassals (titleAt w t)). bricksKingdom k}.
                       set (getVassals (titleAt w k)))
       \<and> (\<forall>k\<in>set (getVassals (titleAt w t)). k = ''k_papal_state'' \<or> k = ''k_orthodox'' \<longrightarrow>
            (\<forall>x\<in>set (getVassals (titleAt w k)).
               x \<notin> set (getVassals (titleAt w t))
               \<and> (\<forall>b\<in>set (getVassals (titleAt w t)).
                     bricksKingdom b \<longrightarrow> x \<notin> set (getVassals (titleAt w b)))
               \<and> x \<noteq> t \<longrightarrow>
               x \<notin> set M \<and> titleAt w' x = titleAt w x))
       \<and> hreShattered (titleAt w) t M (find (holderMatches H1 t) M) = titleAt w'
       \<and> titles w' = titles w \<and> independentTitles w' = independentTitles w"
proof -
  let ?V = "getVassals (titleAt w t)"
  let ?H0 = "titleAt w"
  obtain H2 es where loop: "fold (hreMemberStep t) M (H1, False) = (H2, es)"
    by (cases "fold (hreMemberStep t) M (H1, False)") auto
  let ?H3 = "H2(t := clearHolder (clearVassals (H2 t)))"
  have H1: "\<And>x. H1 x = (if x \<in> set ?V \<and> bricksKingdom x then brick (?H0 x) else ?H0 x)"
    using collect_store [of ?V ?H0 "[]" "[]"] collect by (simp add: hreCollect_def)
  have M: "M = fst (snd (fold hreVassalStep ?V (?H0, [], [])))"
    using collect by (simp add: hreCollect_def)
  have final: "titleAt w' = ?H3"
    using mode t found vassals collect loop w' by (simp add: shatterHRE_def Let_def)
  have H2_holder: "\<And>x. getHolder (H2 x) = getHolder (H1 x)"
    using members_holder [of t M H1 False] loop by simp
  have H2_vassals: "\<And>x. getVassals (H2 x) = getVassals (H1 x)"
    using members_vassals [of t M H1 False] loop by simp
  have H2_liege: "\<And>x. getLiege (H2 x) = (if x \<in> set M then ([], None) else getLiege (H1 x))"
    using members_liege [of t M H1 False] loop by simp
  have H2_inHRE: "\<And>x. isInHRE (H2 x) = (x \<in> set M \<or> isInHRE (H1 x))"
    using members_inHRE [of t M H1 False] loop by simp
  have H2_emperor: "\<And>x. isHREEmperor (H2 x)
      = (isHREEmperor (H1 x) \<or> find (holderMatches H1 t) M = Some x)"
    using members_emperor [of t M H1 False] loop by simp
  have c1: "\<forall>k\<in>set ?V. k = ''k_papal_state'' \<or> k = ''k_orthodox'' \<longrightarrow>
            k \<in> set M \<and> getVassals (titleAt w' k) = getVassals (titleAt w k)"
  proof (intro ballI impI)
    fix k assume k: "k \<in> set ?V" "k = ''k_papal_state'' \<or> k = ''k_orthodox''"
    then have "k \<in> set M" using collect_protected [of k ?V ?H0 "[]" "[]"] M by simp
    moreover have "\<not> bricksKingdom k" using k(2) by (auto simp: bricksKingdom_def)
    moreover have "k \<noteq> t" using k(1) self by auto
    ultimately show "k \<in> set M \<and> getVassals (titleAt w' k) = getVassals (titleAt w k)"
      using final H2_vassals H1 by simp
  qed
  have c2: "\<forall>k\<in>set ?V. bricksKingdom k \<longrightarrow>
            bricked (titleAt w' k) \<and> set (getVassals (titleAt w k)) \<subseteq> set M"
  proof (intro ballI impI)
    fix k assume k: "k \<in> set ?V" "bricksKingdom k"
    have sub: "set (getVassals (titleAt w k)) \<subseteq> set M"
      using collect_vassals_of_bricked [OF k, of ?H0 "[]" "[]"] M by simp
    have "H1 k = brick (?H0 k)" using H1 k by simp
    then have "getVassals (H2 k) = []" "getHolder (H2 k) = (0, None)"
      "getLiege (H2 k) = ([], None)"
      using H2_vassals [of k] H2_holder [of k] H2_liege [of k]
      by (simp_all add: brick_def title_ops)
    then have "bricked (?H3 k)" by (auto simp: bricked_def title_ops)
    with sub final show "bricked (titleAt w' k) \<and> set (getVassals (titleAt w k)) \<subseteq> set M"
      by simp
  qed
  have c3: "\<forall>m\<in>set M. getLiege (titleAt w' m) = ([], None) \<and> isInHRE (titleAt w' m)"
    using final H2_liege H2_inHRE by (simp add: title_ops)
  have c4: "\<forall>x. isHREEmperor (titleAt w' x)
                 = (isHREEmperor (titleAt w x) \<or> find (holderMatches H1 t) M = Some x)"
  proof
    fix x
    have "isHREEmperor (H1 x) = isHREEmperor (?H0 x)"
      using H1 [of x] by (simp add: brick_def title_ops)
    moreover have "isHREEmperor (?H3 x) = isHREEmperor (H2 x)" by (simp add: title_ops)
    ultimately show "isHREEmperor (titleAt w' x)
                 = (isHREEmperor (titleAt w x) \<or> find (holderMatches H1 t) M = Some x)"
      using final H2_emperor [of x] by simp
  qed
  have c5: "\<forall>x. getHolder (H1 x)
                 = (if x \<in> set ?V \<and> bricksKingdom x then (0, None) else getHolder (titleAt w x))"
    using H1 by (simp add: brick_def title_ops)
  have c6: "getVassals (titleAt w' t) = [] \<and> getHolder (titleAt w' t) = (0, None)"
    using final by (simp add: title_ops)
  have H2: "\<And>x. H2 x = (if x \<in> set M
                          then flagMember (find (holderMatches H1 t) M = Some x) (H1 x) else H1 x)"
    using members_store [of t M H1 False] loop by simp
  have c7: "sorted M \<and> distinct M"
    using collect_sorted [of "[]" ?V ?H0 "[]"] M by simp
  have c8: "set M = {v \<in> set ?V. hreDirectMember v}
                 \<union> (\<Union>k\<in>{k \<in> set ?V. bricksKingdom k}. set (getVassals (titleAt w k)))"
    using collect_members [of ?V ?H0 "[]" "[]"] M by simp
  have c9: "hreShattered (titleAt w) t M (find (holderMatches H1 t) M) = titleAt w'"
  proof
    fix x
    show "hreShattered (titleAt w) t M (find (holderMatches H1 t) M) x = titleAt w' x"
      unfolding final hreShattered_def Let_def using H2 [of x] H2 [of t] H1 [of x] H1 [of t]
      by (auto simp: eq_commute [of "Some x"])
  qed
  have c10: "\<forall>k\<in>set ?V. k = ''k_papal_state'' \<or> k = ''k_orthodox'' \<longrightarrow>
            (\<forall>x\<in>set (getVassals (titleAt w k)).
               x \<notin> set ?V
               \<and> (\<forall>b\<in>set ?V. bricksKingdom b \<longrightarrow> x \<notin> set (getVassals (titleAt w b)))
               \<and> x \<noteq> t \<longrightarrow>
               x \<notin> set M \<and> titleAt w' x = titleAt w x)"
  proof (intro ballI impI)
    fix k x
    assume x: "x \<notin> set ?V
               \<and> (\<forall>b\<in>set ?V. bricksKingdom b \<longrightarrow> x \<notin> set (getVassals (titleAt w b)))
               \<and> x \<noteq> t"
    then have out: "x \<notin> set M" using c8 by auto
    then have "H2 x = H1 x" using H2 [of x] by simp
    moreover have "H1 x = ?H0 x" using H1 [of x] x by simp
    ultimately show "x \<notin> set M \<and> titleAt w' x = titleAt w x" using out final x by simp
  qed
  have c11: "titles w' = titles w \<and> independentTitles w' = independentTitles w"
    using mode t found vassals collect loop w' by (simp add: shatterHRE_def Let_def)
  show ?thesis using c1 c2 c3 c4 c5 c6 c7 c8 c9 c10 c11 by blast
qed

theorem shatterHRE_members_witness:
  "HRE \<noteq> NONE
   \<and> ''e_hre'' \<in> set (titles sampleEmpire)
   \<and> getVassals (titleAt sampleEmpire ''e_hre'') = [''d_a'', ''k_b'', ''k_papal_state'']
   \<and> fst (snd (hreCollect sampleEmpire ''e_hre'')) = [''d_a'', ''d_c'', ''k_papal_state'']
   \<and> bricksKingdom ''k_b''
   \<and> getVassals (titleAt (fst (shatterHRE HRE [] sampleEmpire)) ''k_papal_state'') = [''c_roma'']
   \<and> bricked (titleAt (fst (shatterHRE HRE [] sampleEmpire)) ''k_b'')
   \<and> getLiege (titleAt (fst (shatterHRE HRE [] sampleEmpire)) ''d_c'') = ([], None)
   \<and> isInHRE (titleAt (fst (shatterHRE HRE [] sampleEmpire)) ''d_c'')
   \<and> isHREEmperor (titleAt (fst (shatterHRE HRE [] sampleEmpire)) ''d_a'')
   \<and> \<not> isHREEmperor (titleAt (fst (shatterHRE HRE [] sampleEmpire)) ''d_c'')
   \<and> getVassals (titleAt (fst (shatterHRE HRE [] sampleEmpire)) ''e_hre'') = []
   \<and> getHolder (titleAt (fst (shatterHRE HRE [] sampleEmpire)) ''e_hre'') = (0, None)
   \<and> ''c_roma'' \<in> set (getVassals (titleAt sampleEmpire ''k_papal_state''))
   \<and> ''c_roma'' \<notin> set (fst (snd (hreCollect sampleEmpire ''e_hre'')))
   \<and> titleAt (fst (shatterHRE HRE [] sampleEmpire)) ''c_roma'' = titleAt sampleEmpire ''c_roma''"
proof -
  let ?w = sampleEmpire
  let ?w' = "fst (shatterHRE HRE [] sampleEmpire)"
  let ?H1 = "fst (hreCollect ?w ''e_hre'')"
  let ?M = "fst (snd (hreCollect ?w ''e_hre''))"
  let ?lg = "snd (snd (hreCollect ?w ''e_hre''))"
  have mode: "HRE \<noteq> NONE" by simp
  have t: "''e_hre'' = hreTitleOf HRE []" by (simp add: hreTitleOf_def)
  have found: "''e_hre'' \<in> set (titles ?w)" by (simp add: sampleEmpire_def sample_defs)
  have V: "getVassals (titleAt ?w ''e_hre'') = [''d_a'', ''k_b'', ''k_papal_state'']"
    by (simp add: sampleEmpire_def sample_defs)
  have vassals: "getVassals (titleAt ?w ''e_hre'') \<noteq> []" using V by simp
  have self: "''e_hre'' \<notin> set (getVassals (titleAt ?w ''e_hre''))" using V by simp
  have collect: "hreCollect ?w ''e_hre'' = (?H1, ?M, ?lg)" by simp
  have M: "?M = [''d_a'', ''d_c'', ''k_papal_state'']"
    by (simp add: hreCollect_def V hreVassalStep_def mapInsert_def)
       (simp add: sampleEmpire_def sample_defs title_ops mapInsert_def)
  have bk: "bricksKingdom ''k_b''" by (simp add: bricksKingdom_def)
  have nb: "\<not> bricksKingdom ''d_a''" "\<not> bricksKingdom ''d_c''" "\<not> bricksKingdom ''e_hre''"
    "\<not> bricksKingdom ''k_papal_state''"
    by (simp_all add: bricksKingdom_def)
  note main = shatterHRE_members [OF mode t found vassals self collect refl]
  have holders: "fst (getHolder (titleAt ?w ''e_hre'')) = 1" "fst (getHolder (titleAt ?w ''d_a'')) = 1"
    and pv: "getVassals (titleAt ?w ''k_papal_state'') = [''c_roma'']"
    and flags: "\<not> isHREEmperor (titleAt ?w ''d_a'')" "\<not> isHREEmperor (titleAt ?w ''d_c'')"
    by (simp_all add: sampleEmpire_def sample_defs)
  have first: "find (holderMatches ?H1 ''e_hre'') ?M = Some ''d_a''"
    using main holders nb by (simp add: M holderMatches_def)
  have a: "getVassals (titleAt ?w' ''k_papal_state'') = [''c_roma'']"
    using main V pv by simp
  have b: "bricked (titleAt ?w' ''k_b'')" using main V bk by simp
  have c: "getLiege (titleAt ?w' ''d_c'') = ([], None)" "isInHRE (titleAt ?w' ''d_c'')"
    using main M by simp_all
  have d: "isHREEmperor (titleAt ?w' ''d_a'')" "\<not> isHREEmperor (titleAt ?w' ''d_c'')"
    using main first flags by simp_all
  have e: "getVassals (titleAt ?w' ''e_hre'') = []" "getHolder (titleAt ?w' ''e_hre'') = (0, None)"
    using main by simp_all
  have kb: "getVassals (titleAt ?w ''k_b'') = [''d_c'']"
    by (simp add: sampleEmpire_def sample_defs)
  have own: "\<forall>k\<in>set (getVassals (titleAt ?w ''e_hre'')).
          k = ''k_papal_state'' \<or> k = ''k_orthodox'' \<longrightarrow>
            (\<forall>x\<in>set (getVassals (titleAt ?w k)).
               x \<notin> set (getVassals (titleAt ?w ''e_hre''))
               \<and> (\<forall>b\<in>set (getVassals (titleAt ?w ''e_hre'')).
                     bricksKingdom b \<longrightarrow> x \<notin> set (getVassals (titleAt ?w b)))
               \<and> x \<noteq> ''e_hre'' \<longrightarrow>
               x \<notin> set ?M \<and> titleAt ?w' x = titleAt ?w x)"
    using main by (elim conjE) assumption
  have f: "''c_roma'' \<notin> set ?M
           \<and> titleAt ?w' ''c_roma'' = titleAt ?w ''c_roma''"
    using own [rule_format, of "''k_papal_state''" "''c_roma''"] V pv kb nb by simp
  show ?thesis using mode found V M bk a b c d e pv f by simp
qed

text \<open>
  Claim C2 as stated fails where it says that exactly one member is flagged as emperor:
  in an empire whose only vassal, the duchy \<open>d_a\<close>, is held by another character than the
  empire, \<open>d_a\<close> is the only member and it is not flagged.
\<close>

theorem shatterHRE_no_emperor:
  "fst (snd (hreCollect sampleEmpireNoMatch ''e_hre'')) = [''d_a'']
   \<and> \<not> isHREEmperor (titleAt (fst (shatterHRE HRE [] sampleEmpireNoMatch)) ''d_a'')"
  by (simp add: shatterHRE_def hreTitleOf_def hreCollect_def sampleEmpireNoMatch_def sample_defs
       hreVassalStep_def hreMemberStep_def mapInsert_def title_ops Let_def)

text \<open>
  Claim C10. When the mode is \<^verbatim>\<open>NONE\<close>, or the designated tag is not in the title table, or
  the designated title has no vassals, \<^verbatim>\<open>shatterHRE\<close> returns the world as it was (every
  title, the table and the independent set) after logging one line.
\<close>

theorem shatterHRE_cancelled:
  assumes "mode = NONE \<or> hreTitleOf mode custom \<notin> set (titles w)
           \<or> getVassals (titleAt w (hreTitleOf mode custom)) = []"
  shows "fst (shatterHRE mode custom w) = w
         \<and> (\<exists>message. snd (shatterHRE mode custom w) = [(Info, message)])"
  using assms by (auto simp: shatterHRE_def Let_def)

theorem shatterHRE_cancelled_witness:
  "fst (shatterHRE NONE [] sampleEmpire) = sampleEmpire
   \<and> hreTitleOf BYZANTIUM [] \<notin> set (titles sampleEmpire)
   \<and> fst (shatterHRE BYZANTIUM [] sampleEmpire) = sampleEmpire
   \<and> getVassals (titleAt sampleEmpireEmpty (hreTitleOf HRE [])) = []
   \<and> fst (shatterHRE HRE [] sampleEmpireEmpty) = sampleEmpireEmpty"
proof -
  have a: "hreTitleOf BYZANTIUM [] \<notin> set (titles sampleEmpire)"
    by (simp add: hreTitleOf_def sampleEmpire_def sample_defs)
  have b: "getVassals (titleAt sampleEmpireEmpty (hreTitleOf HRE [])) = []"
    by (simp add: hreTitleOf_def sampleEmpireEmpty_def sample_defs)
  show ?thesis
    using shatterHRE_cancelled [of NONE "[]" sampleEmpire]
      shatterHRE_cancelled [of BYZANTIUM "[]" sampleEmpire]
      shatterHRE_cancelled [of HRE "[]" sampleEmpireEmpty] a b
    by simp
qed

subsection \<open>Barony merge\<close>

lemma baronyStep_store:
  "fst (baronyStep v (H, c)) = (if mergesBarony H v then H(v := overrideLiege (H v)) else H)"
  by (auto simp: baronyStep_def mergesBarony_def)

lemma overridden_not_merged: "mergesBarony H v \<Longrightarrow> \<not> mergesBarony (H(v := overrideLiege (H v))) v"
  by (auto simp: mergesBarony_def overrideLiege_def)

lemma mergesBarony_other: "x \<noteq> v \<Longrightarrow> mergesBarony (H(v := y)) x = mergesBarony H x"
  by (simp add: mergesBarony_def)

lemma barony_fold:
  "fst (fold baronyStep ts (H, c)) x
     = (if x \<in> set ts \<and> mergesBarony H x then overrideLiege (H x) else H x)"
proof (induction ts arbitrary: H c)
  case Nil
  then show ?case by simp
next
  case (Cons v ts)
  obtain H' c' where st: "baronyStep v (H, c) = (H', c')"
    by (cases "baronyStep v (H, c)") auto
  have H': "H' = (if mergesBarony H v then H(v := overrideLiege (H v)) else H)"
    using baronyStep_store [of v H c] st by simp
  have IH: "fst (fold baronyStep ts (H', c')) x
     = (if x \<in> set ts \<and> mergesBarony H' x then overrideLiege (H' x) else H' x)"
    by (rule Cons.IH)
  show ?case
  proof (cases "x = v")
    case True
    then show ?thesis using st IH H' overridden_not_merged [of H v] by auto
  next
    case False
    then have "mergesBarony H' x = mergesBarony H x" "H' x = H x"
      using H' by (auto simp: mergesBarony_other)
    then show ?thesis using st IH False by simp
  qed
qed

text \<open>
  Claim C8, as amended. The barony merge overrides the liege of exactly the titles of the
  table that have a holder, an empty liege, a tag with prefix \<^verbatim>\<open>b_\<close> and a de-jure liege
  with prefix \<^verbatim>\<open>c_\<close>; every other title is left as it was, and so are the table and the
  independent set.
\<close>

theorem mergeIndependentBaronies_effect:
  "titleAt (fst (mergeIndependentBaronies w)) x
     = (if x \<in> set (titles w) \<and> mergesBarony (titleAt w) x
        then overrideLiege (titleAt w x) else titleAt w x)
   \<and> titles (fst (mergeIndependentBaronies w)) = titles w
   \<and> independentTitles (fst (mergeIndependentBaronies w)) = independentTitles w"
proof -
  obtain H c where st: "fold baronyStep (titles w) (titleAt w, 0) = (H, c)"
    by (cases "fold baronyStep (titles w) (titleAt w, 0)") auto
  then have "H x = (if x \<in> set (titles w) \<and> mergesBarony (titleAt w) x
        then overrideLiege (titleAt w x) else titleAt w x)"
    using barony_fold [of "titles w" "titleAt w" 0 x] by simp
  then show ?thesis using st by (simp add: mergeIndependentBaronies_def)
qed

theorem mergeIndependentBaronies_effect_witness:
  "''b_castle'' \<in> set (titles sampleBaronies)
   \<and> mergesBarony (titleAt sampleBaronies) ''b_castle''
   \<and> getLiege (titleAt (fst (mergeIndependentBaronies sampleBaronies)) ''b_castle'')
       = (''c_x'', Some ''c_x'')
   \<and> \<not> mergesBarony (titleAt sampleBaronies) ''c_x''
   \<and> titleAt (fst (mergeIndependentBaronies sampleBaronies)) ''c_x'' = titleAt sampleBaronies ''c_x''"
proof -
  have a: "''b_castle'' \<in> set (titles sampleBaronies)"
    by (simp add: sampleBaronies_def sample_defs)
  have b: "mergesBarony (titleAt sampleBaronies) ''b_castle''"
    "\<not> mergesBarony (titleAt sampleBaronies) ''c_x''"
    by (simp_all add: mergesBarony_def sampleBaronies_def sample_defs)
  have c: "getLiege (overrideLiege (titleAt sampleBaronies ''b_castle'')) = (''c_x'', Some ''c_x'')"
    by (simp add: overrideLiege_def sampleBaronies_def sample_defs)
  show ?thesis
    using mergeIndependentBaronies_effect [of sampleBaronies "''b_castle''"]
      mergeIndependentBaronies_effect [of sampleBaronies "''c_x''"] a b c
    by simp
qed

text \<open>
  Claim C8 as stated fails for a barony without holder: \<open>b_orphan\<close> has an empty liege, the
  prefix \<^verbatim>\<open>b_\<close> and the de-jure liege \<open>c_x\<close>, and the merge leaves its liege empty (the
  source skips titles without holders first).
\<close>

theorem mergeIndependentBaronies_skips_holderless:
  "''b_orphan'' \<in> set (titles sampleBaronies)
   \<and> fst (getLiege (titleAt sampleBaronies ''b_orphan'')) = []
   \<and> prefix ''b_'' ''b_orphan''
   \<and> prefix ''c_'' (fst (getDeJureLiege (titleAt sampleBaronies ''b_orphan'')))
   \<and> getLiege (titleAt (fst (mergeIndependentBaronies sampleBaronies)) ''b_orphan'') = ([], None)
   \<and> getLiege (titleAt (fst (mergeIndependentBaronies sampleBaronies)) ''b_orphan'')
       \<noteq> getDeJureLiege (titleAt sampleBaronies ''b_orphan'')"
  by (simp add: mergeIndependentBaronies_def baronyStep_def overrideLiege_def
      sampleBaronies_def sample_defs)

section \<open>Sovereignty and vassal splitting: proofs\<close>

lemma splitOff_set:
  "splitOff cp H title acc = Inr n \<Longrightarrow> set n = set acc \<union> addedBy cp H title"
  by (auto simp: splitOff_def addedBy_def set_fold_mapInsert Let_def
      split: if_splits option.splits)

lemma splitLoop_set:
  "splitLoop cp H ts acc = Inr n \<Longrightarrow> set n = set acc \<union> (\<Union>t\<in>set ts. addedBy cp H t)"
proof (induction ts arbitrary: acc)
  case Nil
  then show ?case by simp
next
  case (Cons t ts)
  then obtain n0 where n0: "splitOff cp H t acc = Inr n0" "splitLoop cp H ts n0 = Inr n"
    by (auto split: sum.splits)
  from Cons.IH [OF n0(2)] splitOff_set [OF n0(1)] show ?case by auto
qed

lemma addedBy_vassals: "addedBy cp H title \<subseteq> set (getVassals (H title))"
  by (auto simp: splitOff_def addedBy_def set_fold_mapInsert Let_def
      split: if_splits option.splits)

lemma e_not_k: "prefix ''e_'' x \<Longrightarrow> \<not> prefix ''k_'' x"
  by (cases x) auto

lemma addedBy_processed:
  assumes "splitsVassalsOf H title pre"
    and "0 < length (filter (\<lambda>v. prefix pre v \<and> cp v \<noteq> []) (getVassals (H title)))"
  shows "addedBy cp H title =
           {vassal \<in> set (getVassals (H title)). prefix pre vassal
              \<and> fst (getHolder (H vassal)) \<noteq> fst (getHolder (H title))
              \<and> of_nat (length (cp title))
                   / of_nat (length (filter (\<lambda>v. prefix pre v \<and> cp v \<noteq> []) (getVassals (H title))))
                 + (1 / 10) * of_nat (length (cp title))
                   < (of_nat (length (cp vassal)) :: rat)}"
proof -
  have pre: "relevantVassalPrefix title = Some pre"
    using assms(1) e_not_k [of title]
    by (auto simp: splitsVassalsOf_def relevantVassalPrefix_def)
  show ?thesis
    using assms pre
    by (auto simp: splitOff_def addedBy_def splitsVassalsOf_def set_fold_mapInsert Let_def
        countRelevantVassals_def splitThreshold_def split: option.splits)
qed

lemma freeStep_effect:
  assumes "freeStep x (H, I) = Inr (H', I')"
  shows "set I' = insert x (set I) \<and> getLiege (H' x) = ([], None)
         \<and> (\<forall>y. getLiege (H y) = ([], None) \<longrightarrow> getLiege (H' y) = ([], None))
         \<and> (\<forall>y. getHolder (H' y) = getHolder (H y))"
  using assms
  by (auto simp: freeStep_def Let_def set_mapInsert registerGeneratedVassal_def
      registerGeneratedLiege_def clearLiege_def split: option.splits)

lemma freeLoop_effect:
  "freeLoop ns (H, I) = Inr (H', I') \<Longrightarrow>
   set I' = set I \<union> set ns
   \<and> (\<forall>y. y \<in> set ns \<or> getLiege (H y) = ([], None) \<longrightarrow> getLiege (H' y) = ([], None))
   \<and> (\<forall>y. getHolder (H' y) = getHolder (H y))"
proof (induction ns arbitrary: H I)
  case Nil
  then show ?case by simp
next
  case (Cons x ns)
  then obtain H1 I1 where st: "freeStep x (H, I) = Inr (H1, I1)"
    and rest: "freeLoop ns (H1, I1) = Inr (H', I')"
    by (auto split: sum.splits)
  from freeStep_effect [OF st] Cons.IH [OF rest] show ?case by auto
qed

lemma splitOff_total:
  "snd (getHolder (H title)) \<noteq> None \<Longrightarrow> \<exists>n. splitOff cp H title acc = Inr n"
  by (auto simp: splitOff_def Let_def split: option.splits)

lemma splitLoop_total:
  "\<forall>t\<in>set ts. snd (getHolder (H t)) \<noteq> None \<Longrightarrow> \<exists>n. splitLoop cp H ts acc = Inr n"
proof (induction ts arbitrary: acc)
  case Nil
  then show ?case by simp
next
  case (Cons t ts)
  then obtain n0 where "splitOff cp H t acc = Inr n0"
    using splitOff_total [of H t cp acc] by auto
  then show ?case using Cons.IH [of n0] Cons.prems by simp
qed

lemma splitOff_distinct:
  "splitOff cp H title acc = Inr n \<Longrightarrow> sorted acc \<and> distinct acc \<Longrightarrow> sorted n \<and> distinct n"
  using fold_mapInsert_sorted [of acc]
  by (auto simp: splitOff_def Let_def split: if_splits option.splits)

lemma splitLoop_distinct:
  "splitLoop cp H ts acc = Inr n \<Longrightarrow> sorted acc \<and> distinct acc \<Longrightarrow> sorted n \<and> distinct n"
proof (induction ts arbitrary: acc)
  case Nil
  then show ?case by simp
next
  case (Cons t ts)
  then obtain n0 where n0: "splitOff cp H t acc = Inr n0" "splitLoop cp H ts n0 = Inr n"
    by (auto split: sum.splits)
  from Cons.IH [OF n0(2) splitOff_distinct [OF n0(1) Cons.prems(2)]] show ?case .
qed

lemma freeStep_total:
  "snd (getLiege (H x)) \<noteq> None \<Longrightarrow> \<exists>H' I'. freeStep x (H, I) = Inr (H', I')"
  by (auto simp: freeStep_def Let_def split: option.splits)

lemma freeStep_liege:
  assumes "freeStep x (H, I) = Inr (H', I')"
  shows "\<forall>y. y \<noteq> x \<longrightarrow> getLiege (H' y) = getLiege (H y)"
  using assms
  by (auto simp: freeStep_def Let_def registerGeneratedVassal_def
      registerGeneratedLiege_def clearLiege_def split: option.splits)

lemma freeLoop_total:
  "distinct ns \<Longrightarrow> \<forall>x\<in>set ns. snd (getLiege (H x)) \<noteq> None \<Longrightarrow>
   \<exists>H' I'. freeLoop ns (H, I) = Inr (H', I')"
proof (induction ns arbitrary: H I)
  case Nil
  then show ?case by simp
next
  case (Cons x ns)
  then obtain H1 I1 where st: "freeStep x (H, I) = Inr (H1, I1)"
    using freeStep_total [of H x I] by auto
  have "\<forall>y\<in>set ns. snd (getLiege (H1 y)) \<noteq> None"
    using freeStep_liege [OF st] Cons.prems by auto
  moreover have "distinct ns" using Cons.prems(1) by simp
  ultimately obtain H' I' where "freeLoop ns (H1, I1) = Inr (H', I')"
    using Cons.IH [of H1 I1] by blast
  then show ?case using st by simp
qed

lemma freeLoop_frame:
  "freeLoop ns (H, I) = Inr (H', I') \<Longrightarrow> y \<notin> set ns \<Longrightarrow> getLiege (H' y) = getLiege (H y)"
proof (induction ns arbitrary: H I)
  case Nil
  then show ?case by simp
next
  case (Cons x ns)
  then obtain H1 I1 where st: "freeStep x (H, I) = Inr (H1, I1)"
    and rest: "freeLoop ns (H1, I1) = Inr (H', I')"
    by (auto split: sum.splits)
  have "getLiege (H1 y) = getLiege (H y)" using freeStep_liege [OF st] Cons.prems(2) by auto
  moreover have "getLiege (H' y) = getLiege (H1 y)" using Cons.IH [OF rest] Cons.prems(2) by simp
  ultimately show ?case by simp
qed

text \<open>
  Claim C3. Let an independent title be one whose vassals are inspected, with \<open>N > 0\<close> the
  number of its vassals of the relevant tier that hold land and \<open>T\<close> the number of provinces
  in its own claim, and let a vassal of the relevant tier with \<open>n\<close> provinces be held by a
  different character (and be a vassal of no other independent title, and not yet
  independent). With holder and liege pointers in place, \<^verbatim>\<open>splitVassals\<close> returns a world, in
  which the vassal is independent exactly when \<open>n\<close> exceeds \<open>T / N + 0.1 * T\<close>: with
  \<open>n = \<lfloor>T / N + 0.1 * T\<rfloor>\<close> it is not liberated (not in the independent set, its liege as
  before), with one more it is (in the independent set, its liege cleared).
\<close>

theorem splitVassals_threshold_boundary:
  assumes indep: "title \<in> set (independentTitles w)"
    and processed: "splitsVassalsOf (titleAt w) title pre"
    and vassal: "vassal \<in> set (getVassals (titleAt w title))"
    and relevant: "prefix pre vassal"
    and other_holder: "fst (getHolder (titleAt w vassal)) \<noteq> fst (getHolder (titleAt w title))"
    and N: "N = length (filter (\<lambda>v. prefix pre v \<and> cp v \<noteq> []) (getVassals (titleAt w title)))"
    and pos: "0 < N"
    and T: "T = length (cp title)"
    and n: "n = length (cp vassal)"
    and one_liege: "\<forall>other\<in>set (independentTitles w).
                      other \<noteq> title \<longrightarrow> vassal \<notin> set (getVassals (titleAt w other))"
    and fresh: "vassal \<notin> set (independentTitles w)"
    and holders: "\<forall>l\<in>set (independentTitles w). snd (getHolder (titleAt w l)) \<noteq> None"
    and lieges: "\<forall>l\<in>set (independentTitles w). \<forall>v\<in>set (getVassals (titleAt w l)).
                   snd (getLiege (titleAt w v)) \<noteq> None"
  shows "\<exists>w' lg. splitVassals cp w = Inr (w', lg)
       \<and> (vassal \<in> set (independentTitles w')
            \<longleftrightarrow> of_nat T / of_nat N + (1 / 10) * of_nat T < (of_nat n :: rat))
       \<and> (int n = \<lfloor>of_nat T / of_nat N + (1 / 10) * of_nat T :: rat\<rfloor> \<longrightarrow>
            vassal \<notin> set (independentTitles w')
            \<and> getLiege (titleAt w' vassal) = getLiege (titleAt w vassal))
       \<and> (int n = \<lfloor>of_nat T / of_nat N + (1 / 10) * of_nat T :: rat\<rfloor> + 1 \<longrightarrow>
            vassal \<in> set (independentTitles w')
            \<and> getLiege (titleAt w' vassal) = ([], None))"
proof -
  let ?H = "titleAt w"
  let ?thr = "of_nat T / of_nat N + (1 / 10) * of_nat T :: rat"
  obtain newIndeps where loop: "splitLoop cp ?H (independentTitles w) [] = Inr newIndeps"
    using splitLoop_total [OF holders] by blast
  have all: "set newIndeps = (\<Union>t\<in>set (independentTitles w). addedBy cp ?H t)"
    using splitLoop_set [OF loop] by simp
  have dist: "distinct newIndeps" using splitLoop_distinct [OF loop] by simp
  have "\<forall>x\<in>set newIndeps. snd (getLiege (?H x)) \<noteq> None"
    using all addedBy_vassals lieges by blast
  then obtain H' I' where free: "freeLoop newIndeps (?H, independentTitles w) = Inr (H', I')"
    using freeLoop_total [OF dist] by blast
  define w' where "w' = w\<lparr>titleAt := H', independentTitles := I'\<rparr>"
  define lg where "lg = [(Info, ''<> '' @ showNat (length newIndeps)
                              @ '' vassals liberated from immediate integration.'')]"
  have result: "splitVassals cp w = Inr (w', lg)"
    by (simp add: splitVassals_def loop free w'_def lg_def)
  have others: "\<And>other. other \<in> set (independentTitles w) \<Longrightarrow> other \<noteq> title \<Longrightarrow>
                  vassal \<notin> addedBy cp ?H other"
    using one_liege addedBy_vassals by blast
  have mine: "vassal \<in> addedBy cp ?H title \<longleftrightarrow> ?thr < of_nat n"
    using addedBy_processed [OF processed, of cp] pos N T n vassal relevant other_holder by simp
  have new: "vassal \<in> set newIndeps \<longleftrightarrow> ?thr < of_nat n"
    using all others mine indep by auto
  have indeps: "set (independentTitles w') = set (independentTitles w) \<union> set newIndeps"
    using freeLoop_effect [OF free] by (simp add: w'_def)
  have iff: "vassal \<in> set (independentTitles w') \<longleftrightarrow> ?thr < of_nat n"
    using indeps new fresh by simp
  have freed: "vassal \<in> set newIndeps \<Longrightarrow> getLiege (titleAt w' vassal) = ([], None)"
    using freeLoop_effect [OF free] by (simp add: w'_def)
  have kept: "vassal \<notin> set newIndeps \<Longrightarrow> getLiege (titleAt w' vassal) = getLiege (?H vassal)"
    using freeLoop_frame [OF free] by (simp add: w'_def)
  have cast: "(of_nat n :: rat) = of_int (int n)" by simp
  have low: "int n = \<lfloor>?thr\<rfloor> \<longrightarrow>
            vassal \<notin> set (independentTitles w')
            \<and> getLiege (titleAt w' vassal) = getLiege (titleAt w vassal)"
  proof
    assume "int n = \<lfloor>?thr\<rfloor>"
    then have "(of_nat n :: rat) \<le> ?thr" unfolding cast by simp
    then have "\<not> ?thr < of_nat n" by simp
    then show "vassal \<notin> set (independentTitles w')
            \<and> getLiege (titleAt w' vassal) = getLiege (titleAt w vassal)"
      using iff new kept by simp
  qed
  have high: "int n = \<lfloor>?thr\<rfloor> + 1 \<longrightarrow>
            vassal \<in> set (independentTitles w') \<and> getLiege (titleAt w' vassal) = ([], None)"
  proof
    assume "int n = \<lfloor>?thr\<rfloor> + 1"
    then have "?thr < of_nat n" unfolding cast using floor_correct [of ?thr] by simp
    then show "vassal \<in> set (independentTitles w') \<and> getLiege (titleAt w' vassal) = ([], None)"
      using iff new freed by simp
  qed
  show ?thesis using result iff low high by blast
qed

theorem splitVassals_threshold_boundary_witness:
  "\<lfloor>of_nat 12 / of_nat 3 + (1 / 10) * of_nat 12 :: rat\<rfloor> = 5
   \<and> length (getVassals (titleAt sampleRealm ''k_a'')) = 5
   \<and> length (filter (\<lambda>v. prefix ''d_'' v \<and> sampleRealmClaims [1, 2, 3, 4, 5] v \<noteq> [])
               (getVassals (titleAt sampleRealm ''k_a''))) = 3
   \<and> length (sampleRealmClaims [1, 2, 3, 4, 5] ''k_a'') = 12
   \<and> length (sampleRealmClaims [1, 2, 3, 4, 5] ''d_b'') = 5
   \<and> \<not> isl (splitVassals (sampleRealmClaims [1, 2, 3, 4, 5]) sampleRealm)
   \<and> ''d_b'' \<notin> set (independentTitles
        (fst (projr (splitVassals (sampleRealmClaims [1, 2, 3, 4, 5]) sampleRealm))))
   \<and> getLiege (titleAt
        (fst (projr (splitVassals (sampleRealmClaims [1, 2, 3, 4, 5]) sampleRealm))) ''d_b'')
       = (''k_a'', Some ''k_a'')
   \<and> length (sampleRealmClaims [1, 2, 3, 4, 5, 6] ''d_b'') = 6
   \<and> \<not> isl (splitVassals (sampleRealmClaims [1, 2, 3, 4, 5, 6]) sampleRealm)
   \<and> ''d_b'' \<in> set (independentTitles
        (fst (projr (splitVassals (sampleRealmClaims [1, 2, 3, 4, 5, 6]) sampleRealm))))
   \<and> getLiege (titleAt
        (fst (projr (splitVassals (sampleRealmClaims [1, 2, 3, 4, 5, 6]) sampleRealm))) ''d_b'')
       = ([], None)"
proof -
  let ?w = sampleRealm
  let ?lo = "sampleRealmClaims [1, 2, 3, 4, 5]"
  let ?hi = "sampleRealmClaims [1, 2, 3, 4, 5, 6]"
  have thr: "\<lfloor>of_nat 12 / of_nat 3 + (1 / 10) * of_nat 12 :: rat\<rfloor> = 5"
    by (rule floor_unique) simp_all
  have I: "independentTitles ?w = [''k_a'']"
    by (simp add: sampleRealm_def sample_defs)
  then have indep: "''k_a'' \<in> set (independentTitles ?w)" by simp
  have V: "getVassals (titleAt ?w ''k_a'') = [''c_x'', ''d_b'', ''d_c'', ''d_d'', ''d_e'']"
    by (simp add: sampleRealm_def sample_defs)
  have processed: "splitsVassalsOf (titleAt ?w) ''k_a'' ''d_''"
    by (simp add: splitsVassalsOf_def sampleRealm_def sample_defs)
  have vassal: "''d_b'' \<in> set (getVassals (titleAt ?w ''k_a''))" using V by simp
  have relevant: "prefix ''d_'' ''d_b''" by simp
  have other: "fst (getHolder (titleAt ?w ''d_b'')) \<noteq> fst (getHolder (titleAt ?w ''k_a''))"
    by (simp add: sampleRealm_def sample_defs)
  have N: "3 = length (filter (\<lambda>v. prefix ''d_'' v \<and> ?lo v \<noteq> []) (getVassals (titleAt ?w ''k_a'')))"
    "3 = length (filter (\<lambda>v. prefix ''d_'' v \<and> ?hi v \<noteq> []) (getVassals (titleAt ?w ''k_a'')))"
    unfolding V by (simp_all add: sampleRealmClaims_def)
  have T: "12 = length (?lo ''k_a'')" "12 = length (?hi ''k_a'')"
    by (simp_all add: sampleRealmClaims_def)
  have n: "5 = length (?lo ''d_b'')" "6 = length (?hi ''d_b'')"
    by (simp_all add: sampleRealmClaims_def)
  have one: "\<forall>other\<in>set (independentTitles ?w).
               other \<noteq> ''k_a'' \<longrightarrow> ''d_b'' \<notin> set (getVassals (titleAt ?w other))"
    using I by simp
  have fresh: "''d_b'' \<notin> set (independentTitles ?w)" using I by simp
  have holders: "\<forall>l\<in>set (independentTitles ?w). snd (getHolder (titleAt ?w l)) \<noteq> None"
    unfolding I by (simp add: sampleRealm_def sample_defs)
  have lieges: "\<forall>l\<in>set (independentTitles ?w). \<forall>v\<in>set (getVassals (titleAt ?w l)).
                   snd (getLiege (titleAt ?w v)) \<noteq> None"
    unfolding I by (simp add: V) (simp add: sampleRealm_def sample_defs)
  have before: "getLiege (titleAt ?w ''d_b'') = (''k_a'', Some ''k_a'')"
    by (simp add: sampleRealm_def sample_defs)
  obtain w1 lg1 where lo: "splitVassals ?lo ?w = Inr (w1, lg1)"
    "''d_b'' \<notin> set (independentTitles w1)"
    "getLiege (titleAt w1 ''d_b'') = getLiege (titleAt ?w ''d_b'')"
    using splitVassals_threshold_boundary
            [OF indep processed vassal relevant other N(1) _ T(1) n(1) one fresh holders lieges]
      thr
    by auto
  obtain w2 lg2 where hi: "splitVassals ?hi ?w = Inr (w2, lg2)"
    "''d_b'' \<in> set (independentTitles w2)"
    "getLiege (titleAt w2 ''d_b'') = ([], None)"
    using splitVassals_threshold_boundary
            [OF indep processed vassal relevant other N(2) _ T(2) n(2) one fresh holders lieges]
      thr
    by auto
  show ?thesis using thr V N(1) T(1) n lo hi before by simp
qed

text \<open>What the classifier guarantees: a title that \<^verbatim>\<open>filterIndependentTitles\<close> inserts has
  a holder, no liege, and a holder who holds some title named \<^verbatim>\<open>c_...\<close>.\<close>

lemma filterIndependentTitles_holder:
  assumes "t \<in> set (independentTitles (fst (filterIndependentTitles w)))"
  shows "t \<in> set (independentTitles w)
         \<or> (fst (getHolder (titleAt w t)) \<noteq> 0 \<and> fst (getLiege (titleAt w t)) = []
            \<and> (\<exists>c\<in>set (titles w). prefix ''c_'' (getName (titleAt w c))
                  \<and> fst (getHolder (titleAt w c)) = fst (getHolder (titleAt w t))))"
  using assms
  by (auto simp: filterIndependentTitles_def potentialIndeps_def countyHolders_def
      set_fold_mapInsert Let_def)

lemma sampleKingdom_classified: "independentTitles (fst (filterIndependentTitles sampleKingdom)) = [''k_a'']"
  by (simp add: filterIndependentTitles_def potentialIndeps_def countyHolders_def mapInsert_def
        sampleKingdom_def sample_defs Let_def)

lemma sampleKingdom_store: "titleAt (fst (filterIndependentTitles sampleKingdom)) = titleAt sampleKingdom"
  by (simp add: filterIndependentTitles_def Let_def)

lemma sampleKingdom_split: "splitLoop sampleClaims (titleAt sampleKingdom) [''k_a''] [] = Inr [''d_b'']"
  by (simp add: splitOff_def relevantVassalPrefix_def countRelevantVassals_def splitThreshold_def
        sampleClaims_def mapInsert_def sampleKingdom_def sample_defs)

text \<open>
  Claim C4. The claim holds for the classifier (lemma above) and fails for vassal
  splitting, which compares the vassal's holder with the liege's but never tests that the
  vassal has one. In the kingdom \<open>k_a\<close> (holder 1, six provinces claimed) the duchy \<open>d_b\<close>
  has no holder and claims four provinces, \<open>d_c\<close> claims one: the threshold is
  \<open>6 / 2 + 0.6\<close>, so \<open>d_b\<close> is liberated and the independent set ends with a title whose
  holder is empty.
\<close>

theorem splitVassals_frees_holderless_vassal:
  "independentTitles (fst (filterIndependentTitles sampleKingdom)) = [''k_a'']
   \<and> \<not> isl (splitVassals sampleClaims (fst (filterIndependentTitles sampleKingdom)))
   \<and> independentTitles
        (fst (projr (splitVassals sampleClaims (fst (filterIndependentTitles sampleKingdom)))))
       = [''d_b'', ''k_a'']
   \<and> getHolder (titleAt
        (fst (projr (splitVassals sampleClaims (fst (filterIndependentTitles sampleKingdom)))))
        ''d_b'') = (0, None)"
proof -
  have free: "freeLoop [''d_b''] (titleAt sampleKingdom, [''k_a''])
      = Inr ((titleAt sampleKingdom)
               (''k_a'' := registerGeneratedVassal ''d_b'' (titleAt sampleKingdom ''k_a''),
                ''d_b'' := registerGeneratedLiege ''k_a'' (clearLiege (titleAt sampleKingdom ''d_b''))),
             [''d_b'', ''k_a''])"
    by (simp add: freeStep_def Let_def mapInsert_def sampleKingdom_def sample_defs)
  have holder: "getHolder (titleAt sampleKingdom ''d_b'') = (0, None)"
    by (simp add: sampleKingdom_def sample_defs)
  let ?W = "fst (filterIndependentTitles sampleKingdom)"
  have "splitVassals sampleClaims ?W
      = Inr (?W\<lparr>titleAt := (titleAt sampleKingdom)
               (''k_a'' := registerGeneratedVassal ''d_b'' (titleAt sampleKingdom ''k_a''),
                ''d_b'' := registerGeneratedLiege ''k_a'' (clearLiege (titleAt sampleKingdom ''d_b''))),
              independentTitles := [''d_b'', ''k_a'']\<rparr>,
             [(Info, ''<> '' @ showNat (length [''d_b''])
                       @ '' vassals liberated from immediate integration.'')])"
    by (simp only: splitVassals_def sampleKingdom_classified sampleKingdom_store sampleKingdom_split sum.case free prod.case)
  then show ?thesis
    using holder sampleKingdom_classified by (simp add: registerGeneratedLiege_def clearLiege_def)
qed

section \<open>Province sanity check: proofs\<close>

lemma owners_Cons: "owners (e # m) p = (if p = fst e then snd e else owners m p)"
  by (cases e) (simp add: owners_def)

lemma owners_absent: "p \<notin> fst ` set m \<Longrightarrow> owners m p = []"
  by (simp add: owners_def map_of_eq_None_iff [THEN iffD2])

lemma pushBack_keys: "fst ` set (pushBack k v m) = insert k (fst ` set m)"
  by (induction m) auto

lemma pushBack_wellKeyed: "wellKeyed m \<Longrightarrow> wellKeyed (pushBack k v m)"
proof (induction m)
  case Nil
  then show ?case by (simp add: wellKeyed_def)
next
  case (Cons e m)
  then have IH: "wellKeyed (pushBack k v m)" by (simp add: wellKeyed_def)
  have keys: "fst ` set (pushBack k v m) = insert k (fst ` set m)" by (rule pushBack_keys)
  show ?case
  proof (cases "k = fst e")
    case True
    then show ?thesis using Cons.prems by (auto simp: wellKeyed_def)
  next
    case False
    show ?thesis
    proof (cases "k < fst e")
      case True
      then show ?thesis using Cons.prems False by (auto simp: wellKeyed_def)
    next
      case ge: False
      then have "fst e < k" using False by simp
      moreover have "\<forall>x\<in>set (pushBack k v m). fst e < fst x"
      proof
        fix x assume "x \<in> set (pushBack k v m)"
        then have "fst x \<in> insert k (fst ` set m)" using keys by blast
        then show "fst e < fst x" using \<open>fst e < k\<close> Cons.prems by (auto simp: wellKeyed_def)
      qed
      ultimately show ?thesis using IH Cons.prems False ge by (auto simp: wellKeyed_def)
    qed
  qed
qed

lemma pushBack_owners:
  "wellKeyed m \<Longrightarrow> owners (pushBack k v m) p = (if p = k then owners m p @ [v] else owners m p)"
proof (induction m)
  case Nil
  then show ?case by (simp add: owners_def)
next
  case (Cons e m)
  then have IH: "owners (pushBack k v m) p = (if p = k then owners m p @ [v] else owners m p)"
    by (simp add: wellKeyed_def)
  show ?case
  proof (cases "k = fst e")
    case True
    then show ?thesis by (simp add: owners_Cons)
  next
    case False
    show ?thesis
    proof (cases "k < fst e")
      case True
      then have "k \<notin> fst ` set (e # m)" using Cons.prems by (auto simp: wellKeyed_def)
      then have "owners (e # m) k = []" by (rule owners_absent)
      then show ?thesis using True False by (auto simp: owners_Cons)
    next
      case ge: False
      then show ?thesis using False IH by (auto simp: owners_Cons)
    qed
  qed
qed

lemma inner_fold:
  "wellKeyed m \<Longrightarrow> distinct ps \<Longrightarrow>
   wellKeyed (fold (\<lambda>province. pushBack province t) ps m)
   \<and> owners (fold (\<lambda>province. pushBack province t) ps m) p
       = owners m p @ (if p \<in> set ps then [t] else [])"
proof (induction ps arbitrary: m)
  case Nil
  then show ?case by simp
next
  case (Cons q ps)
  have wk: "wellKeyed (pushBack q t m)" using Cons.prems(1) by (rule pushBack_wellKeyed)
  have d: "distinct ps" "q \<notin> set ps" using Cons.prems(2) by simp_all
  from Cons.IH [OF wk d(1)] pushBack_owners [OF Cons.prems(1), of q t p] d(2)
  show ?case by auto
qed

lemma outer_fold:
  "wellKeyed m \<Longrightarrow> \<forall>t\<in>set ts. distinct (getProvinces (H t)) \<Longrightarrow>
   wellKeyed (fold (\<lambda>indep m. fold (\<lambda>province. pushBack province indep) (getProvinces (H indep)) m) ts m)
   \<and> owners (fold (\<lambda>indep m. fold (\<lambda>province. pushBack province indep) (getProvinces (H indep)) m) ts m) p
       = owners m p @ filter (\<lambda>t. p \<in> set (getProvinces (H t))) ts"
proof (induction ts arbitrary: m)
  case Nil
  then show ?case by simp
next
  case (Cons t ts)
  let ?m1 = "fold (\<lambda>province. pushBack province t) (getProvinces (H t)) m"
  have d: "distinct (getProvinces (H t))" using Cons.prems(2) by simp
  have step: "wellKeyed ?m1"
    "owners ?m1 p = owners m p @ (if p \<in> set (getProvinces (H t)) then [t] else [])"
    using inner_fold [OF Cons.prems(1) d, of t p] by simp_all
  have rest: "\<forall>t\<in>set ts. distinct (getProvinces (H t))" using Cons.prems(2) by simp
  from Cons.IH [OF step(1) rest] step(2) show ?case by simp
qed

lemma provinceTitlesMap_owners:
  assumes "\<forall>t\<in>set (independentTitles w). distinct (getProvinces (titleAt w t))"
  shows "wellKeyed (provinceTitlesMap (titleAt w) (independentTitles w))"
    and "owners (provinceTitlesMap (titleAt w) (independentTitles w)) p = claimants w p"
  using outer_fold [of "[]" "independentTitles w" "titleAt w" p] assms
  by (simp_all add: provinceTitlesMap_def claimants_def wellKeyed_def owners_def)

lemma wellKeyed_entry:
  assumes "wellKeyed m"
  shows "e \<in> set m \<longleftrightarrow> snd e \<noteq> [] \<and> owners m (fst e) = snd e"
proof -
  have dist: "distinct (map fst m)" using assms by (simp add: wellKeyed_def strict_sorted_iff)
  show ?thesis
  proof
    assume "e \<in> set m"
    then have "map_of m (fst e) = Some (snd e)" using dist by simp
    then show "snd e \<noteq> [] \<and> owners m (fst e) = snd e"
      using assms \<open>e \<in> set m\<close> by (simp add: owners_def wellKeyed_def)
  next
    assume a: "snd e \<noteq> [] \<and> owners m (fst e) = snd e"
    then have "map_of m (fst e) = Some (snd e)"
      by (auto simp: owners_def split: option.splits)
    then have "(fst e, snd e) \<in> set m" by (rule map_of_SomeD)
    then show "e \<in> set m" by simp
  qed
qed

lemma provinceWarning_text:
  "provinceWarning e = ''Province ID: '' @ to_string (fst e) @ '' is owned by: ''
                        @ concat (map (\<lambda>owner. owner @ '','') (snd e))"
proof -
  have "\<And>init. fold (\<lambda>owner warning. warning @ owner @ '','') xs init
                 = init @ concat (map (\<lambda>owner. owner @ '','') xs)" for xs :: "string list"
    by (induction xs) simp_all
  then show ?thesis by (simp add: provinceWarning_def)
qed

lemma two_in_filter:
  "distinct xs \<Longrightarrow> (1 < length (filter P xs)) = (\<exists>a\<in>set xs. \<exists>b\<in>set xs. a \<noteq> b \<and> P a \<and> P b)"
proof (induction xs)
  case Nil
  then show ?case by simp
next
  case (Cons x xs)
  have pos: "(0 < length (filter P xs)) = (\<exists>b\<in>set xs. P b)"
    by (simp add: filter_empty_conv)
  show ?case
  proof (cases "P x")
    case True
    then show ?thesis using Cons pos by auto
  next
    case False
    then show ?thesis using Cons by auto
  qed
qed

text \<open>
  Claim C5. For an independent set and province sets as a \<^verbatim>\<open>std::map\<close> holds them (distinct
  keys), the sanity check returns the world unchanged; it logs a warning if and only if
  some province ID is in the province sets of two different independent titles; and for
  every such province it logs the warning that names all the claimants, in map order.
\<close>

theorem sanityCheckifyProvinces_warns_iff_overlap:
  assumes "distinct (independentTitles w)"
    and "\<forall>t\<in>set (independentTitles w). distinct (getProvinces (titleAt w t))"
  shows "fst (sanityCheckifyProvinces w) = w
       \<and> ((\<exists>entry\<in>set (snd (sanityCheckifyProvinces w)). fst entry = Warning)
            \<longleftrightarrow> (\<exists>p. \<exists>a\<in>set (independentTitles w). \<exists>b\<in>set (independentTitles w).
                    a \<noteq> b \<and> p \<in> set (getProvinces (titleAt w a))
                    \<and> p \<in> set (getProvinces (titleAt w b))))
       \<and> (\<forall>p. 1 < length (claimants w p) \<longrightarrow>
             (Warning, ''Province ID: '' @ to_string p @ '' is owned by: ''
                         @ concat (map (\<lambda>owner. owner @ '','') (claimants w p)))
               \<in> set (snd (sanityCheckifyProvinces w)))"
proof -
  let ?m = "provinceTitlesMap (titleAt w) (independentTitles w)"
  let ?excess = "filter (\<lambda>entry. 1 < length (snd entry)) ?m"
  let ?lg = "snd (sanityCheckifyProvinces w)"
  have wk: "wellKeyed ?m" and own: "\<And>p. owners ?m p = claimants w p"
    using provinceTitlesMap_owners [OF assms(2)] by simp_all
  have entry: "\<And>e. e \<in> set ?excess \<longleftrightarrow> 1 < length (snd e) \<and> claimants w (fst e) = snd e"
    using wellKeyed_entry [OF wk] own by auto
  have overlap: "\<And>p. 1 < length (claimants w p)
        \<longleftrightarrow> (\<exists>a\<in>set (independentTitles w). \<exists>b\<in>set (independentTitles w).
               a \<noteq> b \<and> p \<in> set (getProvinces (titleAt w a)) \<and> p \<in> set (getProvinces (titleAt w b)))"
    unfolding claimants_def using two_in_filter [OF assms(1)] by simp
  have some: "?excess \<noteq> [] \<longleftrightarrow> (\<exists>p. 1 < length (claimants w p))"
  proof
    assume "?excess \<noteq> []"
    then obtain e where "e \<in> set ?excess" by (meson last_in_set)
    then have "1 < length (claimants w (fst e))" using entry [of e] by simp
    then show "\<exists>p. 1 < length (claimants w p)" by blast
  next
    assume "\<exists>p. 1 < length (claimants w p)"
    then obtain p where "1 < length (claimants w p)" by blast
    then have "(p, claimants w p) \<in> set ?excess" using entry [of "(p, claimants w p)"] by simp
    then show "?excess \<noteq> []" by (metis empty_iff empty_set)
  qed
  have lg: "?lg = map (\<lambda>entry. (Warning, provinceWarning entry)) ?excess
             @ (if ?excess = []
                then [(Info, ''<> Province sanity check passed, all provinces accounted for.'')]
                else [(Warning, ''!! Province sanity check failed! We have excess provinces!'')])"
    by (simp add: sanityCheckifyProvinces_def Let_def)
  have warn: "(\<exists>entry\<in>set ?lg. fst entry = Warning) \<longleftrightarrow> ?excess \<noteq> []"
    unfolding lg by (cases ?excess) auto
  have c1: "fst (sanityCheckifyProvinces w) = w"
    by (simp add: sanityCheckifyProvinces_def Let_def)
  have c2: "(\<exists>entry\<in>set ?lg. fst entry = Warning)
            \<longleftrightarrow> (\<exists>p. \<exists>a\<in>set (independentTitles w). \<exists>b\<in>set (independentTitles w).
                    a \<noteq> b \<and> p \<in> set (getProvinces (titleAt w a))
                    \<and> p \<in> set (getProvinces (titleAt w b)))"
    using warn some overlap by simp
  have c3: "\<forall>p. 1 < length (claimants w p) \<longrightarrow>
             (Warning, ''Province ID: '' @ to_string p @ '' is owned by: ''
                         @ concat (map (\<lambda>owner. owner @ '','') (claimants w p))) \<in> set ?lg"
  proof (intro allI impI)
    fix p assume "1 < length (claimants w p)"
    then have "(p, claimants w p) \<in> set ?excess" using entry [of "(p, claimants w p)"] by simp
    then have "(Warning, provinceWarning (p, claimants w p)) \<in> set ?lg"
      unfolding lg by force
    then show "(Warning, ''Province ID: '' @ to_string p @ '' is owned by: ''
                         @ concat (map (\<lambda>owner. owner @ '','') (claimants w p))) \<in> set ?lg"
      by (simp add: provinceWarning_text)
  qed
  show ?thesis using c1 c2 c3 by blast
qed

theorem sanityCheckifyProvinces_warns_iff_overlap_witness:
  "distinct (independentTitles sampleOverlap)
   \<and> claimants sampleOverlap 2 = [''k_a'', ''k_b'']
   \<and> fst (sanityCheckifyProvinces sampleOverlap) = sampleOverlap
   \<and> (Warning, ''Province ID: 2 is owned by: k_a,k_b,'')
        \<in> set (snd (sanityCheckifyProvinces sampleOverlap))
   \<and> distinct (independentTitles sampleDisjoint)
   \<and> \<not> (\<exists>entry\<in>set (snd (sanityCheckifyProvinces sampleDisjoint)). fst entry = Warning)"
proof -
  have d1: "distinct (independentTitles sampleOverlap)"
    and p1: "\<forall>t\<in>set (independentTitles sampleOverlap). distinct (getProvinces (titleAt sampleOverlap t))"
    by (simp_all add: sampleOverlap_def sample_defs)
  have d2: "distinct (independentTitles sampleDisjoint)"
    and p2: "\<forall>t\<in>set (independentTitles sampleDisjoint). distinct (getProvinces (titleAt sampleDisjoint t))"
    by (simp_all add: sampleDisjoint_def sample_defs)
  have cl: "claimants sampleOverlap 2 = [''k_a'', ''k_b'']"
    by (simp add: claimants_def sampleOverlap_def sample_defs)
  have two: "to_string 2 = ''2''"
    by (simp add: to_string_def showNat.simps [of 2])
  have none: "\<not> (\<exists>p. \<exists>a\<in>set (independentTitles sampleDisjoint).
                  \<exists>b\<in>set (independentTitles sampleDisjoint).
                    a \<noteq> b \<and> p \<in> set (getProvinces (titleAt sampleDisjoint a))
                    \<and> p \<in> set (getProvinces (titleAt sampleDisjoint b)))"
    by (auto simp: sampleDisjoint_def sample_defs)
  have "1 < length (claimants sampleOverlap 2) \<longrightarrow>
          (Warning, ''Province ID: '' @ to_string 2 @ '' is owned by: ''
                      @ concat (map (\<lambda>owner. owner @ '','') (claimants sampleOverlap 2)))
            \<in> set (snd (sanityCheckifyProvinces sampleOverlap))"
    and same: "fst (sanityCheckifyProvinces sampleOverlap) = sampleOverlap"
    using sanityCheckifyProvinces_warns_iff_overlap [OF d1 p1] by blast+
  then have a: "fst (sanityCheckifyProvinces sampleOverlap) = sampleOverlap
      \<and> (Warning, ''Province ID: 2 is owned by: k_a,k_b,'')
           \<in> set (snd (sanityCheckifyProvinces sampleOverlap))"
    using cl two by simp
  have b: "\<not> (\<exists>entry\<in>set (snd (sanityCheckifyProvinces sampleDisjoint)). fst entry = Warning)"
    using sanityCheckifyProvinces_warns_iff_overlap [OF d2 p2] none by simp
  show ?thesis using d1 cl a d2 b by simp
qed

section \<open>Recovery of religions and cultures: proofs\<close>

lemma insaneUpTo_0: "insaneUpTo env mods cs 0"
  by (simp add: insaneUpTo_def)

lemma insaneUpTo_Suc:
  "insaneUpTo env (e # mods) cs (Suc n)
     = (insanityCounter cs \<noteq> 0 \<and> insaneUpTo env mods (loadSource env e cs) n)"
  by (simp add: insaneUpTo_def All_less_Suc2 loadSources_def)

lemma insaneUpTo_Nil: "insaneUpTo env [] cs (Suc n) = (insanityCounter cs \<noteq> 0)"
  by (auto simp: insaneUpTo_def loadSources_def)

lemma insaneUpTo_less: "insaneUpTo env mods cs n \<Longrightarrow> j < n \<Longrightarrow>
   insanityCounter (loadSources env (take j mods) cs) \<noteq> 0"
  by (simp add: insaneUpTo_def)

lemma rummage_log_mono: "set lg \<subseteq> set (fst (snd (rummage env mods cs lg)))"
proof (induction mods arbitrary: cs lg)
  case Nil
  then show ?case by simp
next
  case (Cons e mods)
  show ?case
    using Cons.IH [of "lg @ [(Info, ''Found something interesting in '' @ fst e),
        (Warning, ''! '' @ showNat (insanityCounter (loadFolder env (snd e) cs))
            @ '' characters are still lacking definitions. Continuing with the rummage.'')]"
        "loadFolder env (snd e) cs"]
      Cons.IH [of lg cs]
    by (auto simp: Let_def)
qed

lemma rummage_no_giveUp:
  "giveUpWarning \<notin> set lg \<Longrightarrow> giveUpWarning \<notin> set (fst (snd (rummage env mods cs lg)))"
proof (induction mods arbitrary: cs lg)
  case Nil
  then show ?case by simp
next
  case (Cons e mods)
  let ?lg2 = "lg @ [(Info, ''Found something interesting in '' @ fst e),
        (Warning, ''! '' @ showNat (insanityCounter (loadFolder env (snd e) cs))
            @ '' characters are still lacking definitions. Continuing with the rummage.'')]"
  have "giveUpWarning \<notin> set ?lg2" using Cons.prems by (simp add: giveUpWarning_def)
  then show ?case
    using Cons.IH [of ?lg2 "loadFolder env (snd e) cs"] Cons.IH [OF Cons.prems, of cs] Cons.prems
    by (auto simp: Let_def giveUpWarning_def)
qed

lemma rummage_result:
  assumes "insanityCounter cs \<noteq> 0"
  shows "(snd (snd (rummage env mods cs lg)) \<longrightarrow>
            (\<exists>n\<le>length mods. fst (rummage env mods cs lg) = loadSources env (take n mods) cs
               \<and> insanityCounter (loadSources env (take n mods) cs) = 0
               \<and> insaneUpTo env mods cs n))
       \<and> (\<not> snd (snd (rummage env mods cs lg)) \<longrightarrow>
            fst (rummage env mods cs lg) = loadSources env mods cs
            \<and> insaneUpTo env mods cs (Suc (length mods)))"
  using assms
proof (induction mods arbitrary: cs lg)
  case Nil
  then show ?case by (simp add: loadSources_def insaneUpTo_Nil)
next
  case (Cons e mods)
  let ?cs1 = "loadSource env e cs"
  show ?case
  proof (cases "doesFolderExist env (snd e @ ''/common/dynasties/'') \<and> insanityCounter ?cs1 = 0")
    case True
    then have f: "doesFolderExist env (snd e @ ''/common/dynasties/'')"
      and z: "insanityCounter (loadFolder env (snd e) cs) = 0"
      by (auto simp: loadSource_def)
    have r: "rummage env (e # mods) cs lg
        = (?cs1, lg @ [(Info, ''Found something interesting in '' @ fst e)]
              @ [(Info, ''<> All '' @ showNat (length ?cs1)
                   @ '' characters have been sanified. Cancelling rummage.'')], True)"
      using f z by (simp add: loadSource_def Let_def)
    have "Suc 0 \<le> length (e # mods)" by simp
    moreover have "loadSources env (take (Suc 0) (e # mods)) cs = ?cs1"
      by (simp add: loadSources_def)
    moreover have "insaneUpTo env (e # mods) cs (Suc 0)"
      using Cons.prems by (simp add: insaneUpTo_Suc insaneUpTo_0)
    ultimately show ?thesis using r True by (metis fst_conv snd_conv)
  next
    case False
    then have ins: "insanityCounter ?cs1 \<noteq> 0"
      using Cons.prems by (auto simp: loadSource_def)
    have "\<exists>lg'. rummage env (e # mods) cs lg = rummage env mods ?cs1 lg'"
    proof (cases "doesFolderExist env (snd e @ ''/common/dynasties/'')")
      case True
      then have "insanityCounter (loadFolder env (snd e) cs) \<noteq> 0"
        using False by (simp add: loadSource_def)
      then have "rummage env (e # mods) cs lg = rummage env mods ?cs1
          ((lg @ [(Info, ''Found something interesting in '' @ fst e)])
            @ [(Warning, ''! '' @ showNat (insanityCounter (loadFolder env (snd e) cs))
                 @ '' characters are still lacking definitions. Continuing with the rummage.'')])"
        using True by (simp add: loadSource_def Let_def)
      then show ?thesis by (rule exI)
    next
      case False
      then have "rummage env (e # mods) cs lg = rummage env mods ?cs1 lg"
        by (simp add: loadSource_def)
      then show ?thesis by (rule exI)
    qed
    then obtain lg' where r: "rummage env (e # mods) cs lg = rummage env mods ?cs1 lg'"
      by blast
    note IH = Cons.IH [OF ins, of lg']
    show ?thesis
    proof (cases "snd (snd (rummage env mods ?cs1 lg'))")
      case True
      then obtain n where n: "n \<le> length mods"
        "fst (rummage env mods ?cs1 lg') = loadSources env (take n mods) ?cs1"
        "insanityCounter (loadSources env (take n mods) ?cs1) = 0"
        "insaneUpTo env mods ?cs1 n"
        using IH by blast
      have "Suc n \<le> length (e # mods)" using n(1) by simp
      moreover have "loadSources env (take (Suc n) (e # mods)) cs = loadSources env (take n mods) ?cs1"
        by (simp add: loadSources_def)
      moreover have "insaneUpTo env (e # mods) cs (Suc n)"
        using n(4) Cons.prems by (simp add: insaneUpTo_Suc)
      ultimately show ?thesis using r True n(2,3) by metis
    next
      case sane: False
      then have "fst (rummage env mods ?cs1 lg') = loadSources env mods ?cs1"
        "insaneUpTo env mods ?cs1 (Suc (length mods))"
        using IH by simp_all
      then show ?thesis
        using r sane Cons.prems by (simp add: loadSources_def insaneUpTo_Suc)
    qed
  qed
qed

lemmas loader_defs = loadSources_def loadSource_def loadFolder_def sampleLoader_def
  insanityCounter_def sampleHeathen_def sampleCharacter_def sampleMods_def

text \<open>
  Claim C9. The loader runs (its first log line appears) if and only if some character
  lacks religion or culture; a sane table is returned as it is. When the loader runs and
  \<open>n\<close> is the first number of sources after which no character lacks religion or culture,
  the result is the table after exactly these \<open>n\<close> sources, and no give-up warning is
  logged; when no number of sources brings sanity, the result is the table after all
  sources, and the give-up warning is logged. In every case the function returns a table
  and a log: there is no error result.
\<close>

theorem verifyReligionsAndCultures_recovery:
  "(loaderInvoked (snd (verifyReligionsAndCultures env cs)) \<longleftrightarrow> insanityCounter cs \<noteq> 0)
   \<and> (insanityCounter cs = 0 \<longrightarrow> fst (verifyReligionsAndCultures env cs) = cs)
   \<and> (insanityCounter cs \<noteq> 0 \<and> n \<le> length (getMods env)
        \<and> insaneUpTo env (getMods env) cs n
        \<and> insanityCounter (loadSources env (take n (getMods env)) cs) = 0 \<longrightarrow>
          fst (verifyReligionsAndCultures env cs) = loadSources env (take n (getMods env)) cs
          \<and> giveUpWarning \<notin> set (snd (verifyReligionsAndCultures env cs)))
   \<and> (insanityCounter cs \<noteq> 0 \<and> insaneUpTo env (getMods env) cs (Suc (length (getMods env))) \<longrightarrow>
          fst (verifyReligionsAndCultures env cs) = loadSources env (getMods env) cs
          \<and> giveUpWarning \<in> set (snd (verifyReligionsAndCultures env cs)))"
proof -
  let ?init = "[(Info, ''*** Intermezzo ***''),
              (Info, ''-> Locating mods in mod folder''),
              (Info, ''-> Rummaging through mods in search of definitions.'')]"
  let ?r = "rummage env (getMods env) cs ?init"
  let ?v = "verifyReligionsAndCultures env cs"
  have insane_v: "insanityCounter cs \<noteq> 0 \<Longrightarrow>
      ?v = (fst ?r,
            [(Info, ''-- Verifyling All Characters Have Religion And Culture Loaded''),
             (Warning, ''! '' @ showNat (insanityCounter cs)
                 @ '' characters have lacking definitions! Attempting recovery.'')]
            @ fst (snd ?r)
            @ (if \<not> snd (snd ?r) then [giveUpWarning] else [])
            @ [(Info, ''*** Intermezzo End, back to scheduled run ***'')])"
    by (simp add: verifyReligionsAndCultures_def loadDynastiesFromMods_def giveUpWarning_def
        split: prod.splits)
  have c1: "loaderInvoked (snd ?v) \<longleftrightarrow> insanityCounter cs \<noteq> 0"
  proof (cases "insanityCounter cs = 0")
    case True
    then show ?thesis by (simp add: verifyReligionsAndCultures_def loaderInvoked_def)
  next
    case False
    have "(Info, ''*** Intermezzo ***'') \<in> set (fst (snd ?r))"
      using rummage_log_mono [of ?init env "getMods env" cs] by auto
    then show ?thesis using False insane_v by (simp add: loaderInvoked_def)
  qed
  have c2: "insanityCounter cs = 0 \<longrightarrow> fst ?v = cs"
    by (simp add: verifyReligionsAndCultures_def)
  have quiet: "giveUpWarning \<notin> set (fst (snd ?r))"
    by (rule rummage_no_giveUp) (simp add: giveUpWarning_def)
  have c3: "insanityCounter cs \<noteq> 0 \<and> n \<le> length (getMods env)
        \<and> insaneUpTo env (getMods env) cs n
        \<and> insanityCounter (loadSources env (take n (getMods env)) cs) = 0 \<longrightarrow>
          fst ?v = loadSources env (take n (getMods env)) cs \<and> giveUpWarning \<notin> set (snd ?v)"
  proof
    assume a: "insanityCounter cs \<noteq> 0 \<and> n \<le> length (getMods env)
        \<and> insaneUpTo env (getMods env) cs n
        \<and> insanityCounter (loadSources env (take n (getMods env)) cs) = 0"
    then have ins: "insanityCounter cs \<noteq> 0" by simp
    note res = rummage_result [OF ins, of env "getMods env" ?init]
    have sane: "snd (snd ?r)"
    proof (rule ccontr)
      assume "\<not> snd (snd ?r)"
      then have "insaneUpTo env (getMods env) cs (Suc (length (getMods env)))" using res by simp
      then show False
        using a insaneUpTo_less [of env "getMods env" cs "Suc (length (getMods env))" n] by auto
    qed
    then obtain k where k: "k \<le> length (getMods env)"
      "fst ?r = loadSources env (take k (getMods env)) cs"
      "insanityCounter (loadSources env (take k (getMods env)) cs) = 0"
      "insaneUpTo env (getMods env) cs k"
      using res by blast
    have "\<not> n < k" using k(4) a insaneUpTo_less [of env "getMods env" cs k n] by auto
    moreover have "\<not> k < n" using k(3) a insaneUpTo_less [of env "getMods env" cs n k] by auto
    ultimately have "k = n" by simp
    then show "fst ?v = loadSources env (take n (getMods env)) cs \<and> giveUpWarning \<notin> set (snd ?v)"
      using k(2) sane quiet insane_v [OF ins] by (simp add: giveUpWarning_def)
  qed
  have c4: "insanityCounter cs \<noteq> 0 \<and> insaneUpTo env (getMods env) cs (Suc (length (getMods env))) \<longrightarrow>
          fst ?v = loadSources env (getMods env) cs \<and> giveUpWarning \<in> set (snd ?v)"
  proof
    assume a: "insanityCounter cs \<noteq> 0 \<and> insaneUpTo env (getMods env) cs (Suc (length (getMods env)))"
    then have ins: "insanityCounter cs \<noteq> 0" by simp
    note res = rummage_result [OF ins, of env "getMods env" ?init]
    have "\<not> snd (snd ?r)"
    proof
      assume "snd (snd ?r)"
      then obtain k where "k \<le> length (getMods env)"
        "insanityCounter (loadSources env (take k (getMods env)) cs) = 0"
        using res by blast
      then show False
        using a insaneUpTo_less [of env "getMods env" cs "Suc (length (getMods env))" k] by auto
    qed
    then show "fst ?v = loadSources env (getMods env) cs \<and> giveUpWarning \<in> set (snd ?v)"
      using res insane_v [OF ins] by simp
  qed
  show ?thesis using c1 c2 c3 c4 by blast
qed

theorem verifyReligionsAndCultures_recovery_witness:
  "insanityCounter [sampleHeathen] \<noteq> 0
   \<and> insanityCounter [sampleCharacter 1] = 0
   \<and> loaderInvoked (snd (verifyReligionsAndCultures (sampleLoader sampleMods) [sampleHeathen]))
   \<and> \<not> loaderInvoked (snd (verifyReligionsAndCultures (sampleLoader sampleMods) [sampleCharacter 1]))
   \<and> insaneUpTo (sampleLoader sampleMods) sampleMods [sampleHeathen] 3
   \<and> fst (verifyReligionsAndCultures (sampleLoader sampleMods) [sampleHeathen])
       = [sampleHeathen\<lparr>getReligion := ''norse''\<rparr>]
   \<and> giveUpWarning \<notin> set (snd (verifyReligionsAndCultures (sampleLoader sampleMods) [sampleHeathen]))
   \<and> insaneUpTo (sampleLoader (take 2 sampleMods)) (take 2 sampleMods) [sampleHeathen] 3
   \<and> fst (verifyReligionsAndCultures (sampleLoader (take 2 sampleMods)) [sampleHeathen])
       = [sampleHeathen]
   \<and> giveUpWarning \<in> set (snd (verifyReligionsAndCultures (sampleLoader (take 2 sampleMods)) [sampleHeathen]))"
proof -
  let ?env = "sampleLoader sampleMods"
  let ?env2 = "sampleLoader (take 2 sampleMods)"
  have mods: "getMods ?env = sampleMods" "getMods ?env2 = take 2 sampleMods"
    "length sampleMods = 3" "length (take 2 sampleMods) = 2"
    by (simp_all add: sampleLoader_def sampleMods_def)
  have i1: "insanityCounter [sampleHeathen] \<noteq> 0" and i2: "insanityCounter [sampleCharacter 1] = 0"
    by (simp_all add: insanityCounter_def sampleHeathen_def sampleCharacter_def)
  have up: "insaneUpTo ?env sampleMods [sampleHeathen] 3"
    by (simp add: eval_nat_numeral insaneUpTo_Suc insaneUpTo_0 loader_defs)
  have up2: "insaneUpTo ?env2 (take 2 sampleMods) [sampleHeathen] 3"
    by (simp add: eval_nat_numeral insaneUpTo_Suc insaneUpTo_Nil loader_defs)
  have final: "loadSources ?env (take 3 sampleMods) [sampleHeathen]
                 = [sampleHeathen\<lparr>getReligion := ''norse''\<rparr>]"
    by (simp add: loader_defs)
  have final2: "loadSources ?env2 (take 2 sampleMods) [sampleHeathen] = [sampleHeathen]"
    by (simp add: loader_defs)
  have sane: "insanityCounter [sampleHeathen\<lparr>getReligion := ''norse''\<rparr>] = 0"
    by (simp add: insanityCounter_def sampleHeathen_def sampleCharacter_def)
  have a: "loaderInvoked (snd (verifyReligionsAndCultures ?env [sampleHeathen]))"
    "fst (verifyReligionsAndCultures ?env [sampleHeathen]) = [sampleHeathen\<lparr>getReligion := ''norse''\<rparr>]"
    "giveUpWarning \<notin> set (snd (verifyReligionsAndCultures ?env [sampleHeathen]))"
    using verifyReligionsAndCultures_recovery [of ?env "[sampleHeathen]" 3] i1 up final sane mods
    by simp_all
  have b: "\<not> loaderInvoked (snd (verifyReligionsAndCultures ?env [sampleCharacter 1]))"
    using verifyReligionsAndCultures_recovery [of ?env "[sampleCharacter 1]" 0] i2 by simp
  have c: "fst (verifyReligionsAndCultures ?env2 [sampleHeathen]) = [sampleHeathen]"
    "giveUpWarning \<in> set (snd (verifyReligionsAndCultures ?env2 [sampleHeathen]))"
    using verifyReligionsAndCultures_recovery [of ?env2 "[sampleHeathen]" 0] i1 up2 final2 mods
    by simp_all
  show ?thesis using i1 i2 a b up up2 c by simp
qed

end
